theory Spec2Isabelle
  imports Main "HOL-Library.Sublist" "HOL-Library.Multiset"
begin

section \<open>Text and character classes\<close>

text \<open>
  The script works on Python \<open>str\<close> values. They are modelled as \<open>string\<close>, a list
  of 8-bit characters read as the code points 0 to 255; text with code points above 255 is
  outside this model. On that range the classes below are the ones Python's \<open>str\<close>
  methods and the \<open>re\<close> module use: \<open>\s\<close> and \<open>rstrip()\<close> test \<open>is_space\<close>,
  \<open>\w\<close> tests \<open>is_word\<close>, \<open>splitlines()\<close> breaks at \<open>is_linebreak\<close>.
\<close>

definition NL :: char where
  "NL = CHR 0x0A"

definition CR :: char where
  "CR = CHR 0x0D"

definition is_space :: "char \<Rightarrow> bool" where
  "is_space c =
     (let n = (of_char c :: nat)
      in (9 \<le> n \<and> n \<le> 13) \<or> (28 \<le> n \<and> n \<le> 32) \<or> n = 133 \<or> n = 160)"

definition is_alnum :: "char \<Rightarrow> bool" where
  "is_alnum c =
     (let n = (of_char c :: nat)
      in (48 \<le> n \<and> n \<le> 57) \<or> (65 \<le> n \<and> n \<le> 90) \<or> (97 \<le> n \<and> n \<le> 122)
         \<or> n = 170 \<or> n = 178 \<or> n = 179 \<or> n = 181 \<or> n = 185 \<or> n = 186
         \<or> (188 \<le> n \<and> n \<le> 190) \<or> (192 \<le> n \<and> n \<le> 214)
         \<or> (216 \<le> n \<and> n \<le> 246) \<or> (248 \<le> n \<and> n \<le> 255))"

definition is_word :: "char \<Rightarrow> bool" where
  "is_word c = (is_alnum c \<or> c = CHR ''_'')"

definition is_linebreak :: "char \<Rightarrow> bool" where
  "is_linebreak c =
     (let n = (of_char c :: nat)
      in (10 \<le> n \<and> n \<le> 13) \<or> (28 \<le> n \<and> n \<le> 30) \<or> n = 133)"

definition ascii_lower :: "char \<Rightarrow> char" where
  "ascii_lower c =
     (let n = (of_char c :: nat) in if 65 \<le> n \<and> n \<le> 90 then char_of (n + 32) else c)"

text \<open>\<open>s[i:j]\<close> for \<open>0 \<le> i\<close>, \<open>0 \<le> j\<close>.\<close>

definition slice :: "string \<Rightarrow> nat \<Rightarrow> nat \<Rightarrow> string" where
  "slice s i j = take (j - i) (drop i s)"

text \<open>\<open>s.rstrip()\<close>: trailing whitespace removed.\<close>

definition rstrip :: "string \<Rightarrow> string" where
  "rstrip s = rev (dropWhile is_space (rev s))"

text \<open>
  \<open>s.splitlines()\<close>: the lines of \<open>s\<close> without their terminators; \<open>\r\n\<close> is one
  terminator, and a terminator at the very end opens no further line.
\<close>

fun splitlines_acc :: "string \<Rightarrow> string \<Rightarrow> string list" where
  "splitlines_acc cur [] = (if cur = [] then [] else [rev cur])"
| "splitlines_acc cur (c # cs) =
     (if c = CR \<and> cs \<noteq> [] \<and> hd cs = NL then rev cur # splitlines_acc [] (tl cs)
      else if is_linebreak c then rev cur # splitlines_acc [] cs
      else splitlines_acc (c # cur) cs)"

definition splitlines :: "string \<Rightarrow> string list" where
  "splitlines s = splitlines_acc [] s"

text \<open>
  \<open>html.escape(s)\<close> with its default \<open>quote=True\<close>. Python replaces \<open>&\<close> first
  and then the other four characters, none of which occurs in a replacement text, so the
  result is the character-wise substitution.
\<close>

definition escape_char :: "char \<Rightarrow> string" where
  "escape_char c =
     (if c = CHR ''&'' then ''&amp;''
      else if c = CHR ''<'' then ''&lt;''
      else if c = CHR ''>'' then ''&gt;''
      else if c = CHR 0x22 then ''&quot;''
      else if c = CHR 0x27 then ''&#x27;''
      else [c])"

definition escape :: "string \<Rightarrow> string" where
  "escape s = concat (map escape_char s)"

section \<open>The regular expressions of the \<open>re\<close> module\<close>

text \<open>
  The patterns of the script are written in the following syntax tree; the matcher is a
  backtracking matcher that lists, from one position, every way a pattern can match in
  the order in which \<open>re\<close> tries them, so that the head of the list is the match
  \<open>re\<close> reports. Quantifiers apply to single-character atoms only, which is all the
  script's patterns need. One capturing group is supported (\<open>group(1)\<close>).
\<close>

datatype atom =
    Ch char                 \<comment> \<open>a literal character\<close>
  | Dot                     \<comment> \<open>\<open>.\<close>\<close>
  | Sp                      \<comment> \<open>\<open>\s\<close>\<close>
  | NSp                     \<comment> \<open>\<open>\S\<close>\<close>
  | Cls bool string         \<comment> \<open>\<open>[...]\<close>: whether \<open>\w\<close> is listed, and the listed characters\<close>
  | NCls bool string        \<comment> \<open>\<open>[^...]\<close>\<close>

datatype re =
    Eps
  | Atom atom
  | Seq re re
  | Alt re re
  | Opt re                  \<comment> \<open>\<open>r?\<close>\<close>
  | Star atom               \<comment> \<open>\<open>a*\<close>\<close>
  | Plus atom               \<comment> \<open>\<open>a+\<close>\<close>
  | PlusLazy atom           \<comment> \<open>\<open>a+?\<close>\<close>
  | Group re                \<comment> \<open>\<open>(r)\<close>, the capturing group 1\<close>
  | Look re                 \<comment> \<open>\<open>(?=r)\<close>\<close>
  | Bol                     \<comment> \<open>\<open>^\<close>\<close>
  | Eol                     \<comment> \<open>\<open>$\<close>\<close>
  | Wordb                   \<comment> \<open>\<open>\b\<close>\<close>

record flags =
  multiline :: bool
  ignorecase :: bool
  dotall :: bool

definition no_flags :: flags where
  "no_flags = \<lparr>multiline = False, ignorecase = False, dotall = False\<rparr>"

definition MULTILINE :: flags where
  "MULTILINE = \<lparr>multiline = True, ignorecase = False, dotall = False\<rparr>"

definition MULTILINE_IGNORECASE :: flags where
  "MULTILINE_IGNORECASE = \<lparr>multiline = True, ignorecase = True, dotall = False\<rparr>"

definition MULTILINE_IGNORECASE_DOTALL :: flags where
  "MULTILINE_IGNORECASE_DOTALL = \<lparr>multiline = True, ignorecase = True, dotall = True\<rparr>"

definition IGNORECASE :: flags where
  "IGNORECASE = \<lparr>multiline = False, ignorecase = True, dotall = False\<rparr>"

text \<open>
  Whether an atom accepts a character. \<open>IGNORECASE\<close> acts on literal characters; no
  pattern of the script that is used with \<open>IGNORECASE\<close> has a bracketed class.
\<close>

fun atom_ok :: "flags \<Rightarrow> atom \<Rightarrow> char \<Rightarrow> bool" where
  "atom_ok f (Ch p) c = (if ignorecase f then ascii_lower c = ascii_lower p else c = p)"
| "atom_ok f Dot c = (dotall f \<or> c \<noteq> NL)"
| "atom_ok f Sp c = is_space c"
| "atom_ok f NSp c = (\<not> is_space c)"
| "atom_ok f (Cls w cs) c = ((w \<and> is_word c) \<or> c \<in> set cs)"
| "atom_ok f (NCls w cs) c = (\<not> ((w \<and> is_word c) \<or> c \<in> set cs))"

text \<open>The number of consecutive characters from position \<open>i\<close> that an atom accepts.\<close>

definition run :: "flags \<Rightarrow> atom \<Rightarrow> string \<Rightarrow> nat \<Rightarrow> nat" where
  "run f a s i = length (takeWhile (atom_ok f a) (drop i s))"

text \<open>A matcher state: the current position and the span of group 1, if it took part.\<close>

type_synonym mstate = "nat \<times> (nat \<times> nat) option"

definition word_at :: "string \<Rightarrow> nat \<Rightarrow> bool" where
  "word_at s i = (i < length s \<and> is_word (s ! i))"

definition at_bol :: "flags \<Rightarrow> string \<Rightarrow> nat \<Rightarrow> bool" where
  "at_bol f s i = (i = 0 \<or> (multiline f \<and> i \<le> length s \<and> s ! (i - 1) = NL))"

definition at_eol :: "flags \<Rightarrow> string \<Rightarrow> nat \<Rightarrow> bool" where
  "at_eol f s i =
     (i = length s \<or> (Suc i = length s \<and> s ! i = NL)
      \<or> (multiline f \<and> i < length s \<and> s ! i = NL))"

definition at_wordb :: "string \<Rightarrow> nat \<Rightarrow> bool" where
  "at_wordb s i = ((0 < i \<and> word_at s (i - 1)) \<noteq> word_at s i)"

fun rmatch :: "flags \<Rightarrow> string \<Rightarrow> re \<Rightarrow> mstate \<Rightarrow> mstate list" where
  "rmatch f s Eps st = [st]"
| "rmatch f s (Atom a) st =
     (if fst st < length s \<and> atom_ok f a (s ! fst st) then [(Suc (fst st), snd st)] else [])"
| "rmatch f s (Seq r1 r2) st = concat (map (rmatch f s r2) (rmatch f s r1 st))"
| "rmatch f s (Alt r1 r2) st = rmatch f s r1 st @ rmatch f s r2 st"
| "rmatch f s (Opt r) st = rmatch f s r st @ [st]"
| "rmatch f s (Star a) st =
     map (\<lambda>j. (j, snd st)) (rev [fst st ..< Suc (fst st + run f a s (fst st))])"
| "rmatch f s (Plus a) st =
     map (\<lambda>j. (j, snd st)) (rev [Suc (fst st) ..< Suc (fst st + run f a s (fst st))])"
| "rmatch f s (PlusLazy a) st =
     map (\<lambda>j. (j, snd st)) [Suc (fst st) ..< Suc (fst st + run f a s (fst st))]"
| "rmatch f s (Group r) st =
     map (\<lambda>m. (fst m, Some (fst st, fst m))) (rmatch f s r st)"
| "rmatch f s (Look r) st = (if rmatch f s r st = [] then [] else [st])"
| "rmatch f s Bol st = (if at_bol f s (fst st) then [st] else [])"
| "rmatch f s Eol st = (if at_eol f s (fst st) then [st] else [])"
| "rmatch f s Wordb st = (if at_wordb s (fst st) then [st] else [])"

text \<open>A match object: \<open>m.start()\<close>, \<open>m.end()\<close> and the span of group 1.\<close>

record rematch =
  m_start :: nat
  m_end :: nat
  m_group1 :: "(nat \<times> nat) option"

definition mk_match :: "nat \<Rightarrow> mstate \<Rightarrow> rematch" where
  "mk_match i st = \<lparr>m_start = i, m_end = fst st, m_group1 = snd st\<rparr>"

text \<open>\<open>m.group(0)\<close> and \<open>m.group(1)\<close> (the latter for a group that took part).\<close>

definition group0 :: "string \<Rightarrow> rematch \<Rightarrow> string" where
  "group0 s m = slice s (m_start m) (m_end m)"

definition group1 :: "string \<Rightarrow> rematch \<Rightarrow> string" where
  "group1 s m = (case m_group1 m of None \<Rightarrow> [] | Some (i, j) \<Rightarrow> slice s i j)"

text \<open>\<open>re.match\<close>: a match at position 0 only.\<close>

definition re_match :: "flags \<Rightarrow> re \<Rightarrow> string \<Rightarrow> rematch option" where
  "re_match f r s =
     (case rmatch f s r (0, None) of [] \<Rightarrow> None | st # _ \<Rightarrow> Some (mk_match 0 st))"

text \<open>\<open>re.search\<close>: the match at the first position, from \<open>i\<close> on, that has one.\<close>

function search_from :: "flags \<Rightarrow> re \<Rightarrow> string \<Rightarrow> nat \<Rightarrow> rematch option" where
  "search_from f r s i =
     (if length s < i then None
      else (case rmatch f s r (i, None) of
              [] \<Rightarrow> search_from f r s (Suc i)
            | st # _ \<Rightarrow> Some (mk_match i st)))"
  by pat_completeness auto
termination
  by (relation "measure (\<lambda>(f, r, s, i). Suc (length s) - i)") auto

declare search_from.simps [simp del]

definition re_search :: "flags \<Rightarrow> re \<Rightarrow> string \<Rightarrow> rematch option" where
  "re_search f r s = search_from f r s 0"

lemma search_from_bounds:
  "search_from f r s i = Some m \<Longrightarrow> i \<le> m_start m \<and> m_start m \<le> length s"
proof (induction f r s i rule: search_from.induct)
  case (1 f r s i)
  show ?case
  proof (cases "rmatch f s r (i, None)")
    case Nil
    with "1.prems" have le: "\<not> length s < i" and rec: "search_from f r s (Suc i) = Some m"
      by (auto simp: search_from.simps [of f r s i] split: if_splits)
    from "1.IH" [OF le Nil rec] show ?thesis by simp
  next
    case (Cons st sts)
    with "1.prems" show ?thesis
      by (auto simp: search_from.simps [of f r s i] mk_match_def split: if_splits)
  qed
qed

text \<open>
  \<open>re.finditer\<close>: the successive non-overlapping matches, each search starting where
  the previous match ended. After an empty match the scan moves on by one character;
  the two patterns the script iterates over never match the empty string.
\<close>

function finditer_from :: "flags \<Rightarrow> re \<Rightarrow> string \<Rightarrow> nat \<Rightarrow> rematch list" where
  "finditer_from f r s i =
     (case search_from f r s i of
        None \<Rightarrow> []
      | Some m \<Rightarrow>
          m # finditer_from f r s (if m_start m < m_end m then m_end m else Suc (m_start m)))"
  by pat_completeness auto
termination
proof (relation "measure (\<lambda>(f, r, s, i). Suc (length s) - i)")
  show "wf (measure (\<lambda>(f, r, s, i). Suc (length s) - i))" by simp
next
  fix f r s i m
  assume "search_from f r s i = Some m"
  then have "i \<le> m_start m \<and> m_start m \<le> length s" by (rule search_from_bounds)
  then show "((f, r, s, if m_start m < m_end m then m_end m else Suc (m_start m)), (f, r, s, i))
    \<in> measure (\<lambda>(f, r, s, i). Suc (length s) - i)"
    by auto
qed

declare finditer_from.simps [simp del]

definition finditer :: "flags \<Rightarrow> re \<Rightarrow> string \<Rightarrow> rematch list" where
  "finditer f r s = finditer_from f r s 0"

text \<open>\<open>re.split\<close> for a pattern without groups: the text between the matches.\<close>

fun pieces :: "string \<Rightarrow> nat \<Rightarrow> rematch list \<Rightarrow> string list" where
  "pieces s p [] = [drop p s]"
| "pieces s p (m # ms) = slice s p (m_start m) # pieces s (m_end m) ms"

definition re_split :: "flags \<Rightarrow> re \<Rightarrow> string \<Rightarrow> string list" where
  "re_split f r s = pieces s 0 (finditer f r s)"

text \<open>\<open>re.sub(pattern, repl, s, count=1)\<close> for a replacement text without references.\<close>

definition re_sub1 :: "flags \<Rightarrow> re \<Rightarrow> string \<Rightarrow> string \<Rightarrow> string" where
  "re_sub1 f r repl s =
     (case re_search f r s of
        None \<Rightarrow> s
      | Some m \<Rightarrow> take (m_start m) s @ repl @ drop (m_end m) s)"

text \<open>A literal word as a pattern.\<close>

definition lits :: "string \<Rightarrow> re" where
  "lits cs = foldr (\<lambda>c r. Seq (Atom (Ch c)) r) cs Eps"

definition seqs :: "re list \<Rightarrow> re" where
  "seqs rs = foldr Seq rs Eps"

section \<open>Global settings\<close>

definition confirm_urls :: bool where
  "confirm_urls = False"

definition final_text_filename :: string where
  "final_text_filename = ''final-items.jaml''"

definition job_opp_boilerplate :: string where
  "job_opp_boilerplate =
     ''\<newline>For those interested in increasing excellence and diversity in their organizations, a list of resources and advice is here:\<newline>\<newline>https://aas.org/comms/cswa/resources/Diversity#howtoincrease\<newline>\<newline>''"

section \<open>The text/HTML string classes\<close>

text \<open>
  Every class derived from \<open>texthtmlstr\<close> holds a plain-text and an HTML string;
  \<open>print_text\<close> and \<open>print_html\<close> return them. An object is modelled by the record of
  its two strings, each class by the function that builds it.
\<close>

record node =
  text_str :: string
  html_str :: string

definition print_text :: "node \<Rightarrow> string" where
  "print_text n = text_str n"

definition print_html :: "node \<Rightarrow> string" where
  "print_html n = html_str n"

definition texthtmlstr :: "string \<Rightarrow> node" where
  "texthtmlstr s = \<lparr>text_str = s, html_str = escape s\<rparr>"

text \<open>
  \<open>urlstr\<close>; with \<open>confirm_urls = False\<close>, as the script sets it, the constructor
  makes no request.
\<close>

definition urlstr :: "string \<Rightarrow> node" where
  "urlstr u = \<lparr>text_str = u, html_str = ''<a href='' @ [CHR 0x22] @ u @ [CHR 0x22] @ ''>'' @ u @ ''</a>''\<rparr>"

definition parabreakstr :: "bool \<Rightarrow> node" where
  "parabreakstr after_single =
     \<lparr>text_str = (if after_single then [NL] else [NL, NL]), html_str = ''</p><p>''\<rparr>"

text \<open>\<open>mixedstr\<close>: the list \<open>texthtml_strings\<close> and its two renderings.\<close>

definition mixed_print_text :: "node list \<Rightarrow> string" where
  "mixed_print_text ns = concat (map print_text ns)"

definition mixed_print_html :: "node list \<Rightarrow> string" where
  "mixed_print_html ns = ''<p>'' @ concat (map print_html ns) @ ''</p>''"

section \<open>\<open>parsedstr\<close>: the segment classifier\<close>

datatype error =
    ValueError string
  | KeyError string
  | FileNotFoundError string
  | AttributeError string
  | ExternalError string     \<comment> \<open>an exception of \<open>requests\<close> or of \<open>PIL\<close>\<close>

text \<open>
  \<open>url_regex\<close> is
  \<^verbatim>\<open>\b(?:https?|telnet|gopher|file|wais|ftp):[\w/#~:.?+=&%@!\-.:?\\-]+?(?=[.:?\-]*(?:[^\w/#~:.?+=&%@!\-.:?\-]|$))\<close>
  and \<open>parbreak_regex\<close> is \<^verbatim>\<open>\n\s*\n\<close>.
\<close>

definition url_chars :: string where
  "url_chars = ''/#~:.?+=&%@!-.:?'' @ [CHR 0x5C] @ ''-''"

definition url_stop_chars :: string where
  "url_stop_chars = ''/#~:.?+=&%@!-.:?-''"

definition url_regex :: re where
  "url_regex =
     seqs [Wordb,
           Alt (Seq (lits ''http'') (Opt (Atom (Ch CHR ''s''))))
            (Alt (lits ''telnet'') (Alt (lits ''gopher'') (Alt (lits ''file'')
              (Alt (lits ''wais'') (lits ''ftp''))))),
           Atom (Ch CHR '':''),
           PlusLazy (Cls True url_chars),
           Look (Seq (Star (Cls False ''.:?-'')) (Alt (Atom (NCls True url_stop_chars)) Eol))]"

definition parbreak_regex :: re where
  "parbreak_regex = seqs [Atom (Ch NL), Star Sp, Atom (Ch NL)]"

text \<open>\<^verbatim>\<open> *- *(.*)$\<close>, the pattern of a job line.\<close>

definition jobline_regex :: re where
  "jobline_regex = seqs [Star (Ch CHR '' ''), Atom (Ch CHR ''-''), Star (Ch CHR '' ''), Group (Star Dot), Eol]"

text \<open>
  A segment is a dictionary with the keys \<open>start\<close>, \<open>end\<close> and \<open>type\<close>, and, except
  for paragraph breaks, \<open>value\<close>.
\<close>

record segment =
  seg_start :: nat
  seg_end :: nat
  seg_type :: string
  seg_value :: "string option"

definition para_segment :: "rematch \<Rightarrow> segment" where
  "para_segment m = \<lparr>seg_start = m_start m, seg_end = m_end m, seg_type = ''p'', seg_value = None\<rparr>"

definition url_segment :: "string \<Rightarrow> rematch \<Rightarrow> segment" where
  "url_segment s m =
     \<lparr>seg_start = m_start m, seg_end = m_end m, seg_type = ''u'', seg_value = Some (group0 s m)\<rparr>"

definition text_segment :: "string \<Rightarrow> nat \<Rightarrow> nat \<Rightarrow> segment" where
  "text_segment s i j =
     \<lparr>seg_start = i, seg_end = j, seg_type = ''t'', seg_value = Some (slice s i j)\<rparr>"

text \<open>The two \<open>finditer\<close> loops: paragraph breaks first, then URLs.\<close>

definition found_segments :: "string \<Rightarrow> segment list" where
  "found_segments s =
     map para_segment (finditer no_flags parbreak_regex s)
     @ map (url_segment s) (finditer no_flags url_regex s)"

text \<open>
  The loop over the sorted segments that looks for gaps: it visits the segments found so
  far (the text segments it appends are not visited), and carries \<open>current_pos\<close> and
  the appended segments.
\<close>

fun fill_gaps :: "string \<Rightarrow> segment list \<Rightarrow> nat \<Rightarrow> segment list \<Rightarrow> nat \<times> segment list" where
  "fill_gaps s [] current_pos appended = (current_pos, appended)"
| "fill_gaps s (g # gs) current_pos appended =
     fill_gaps s gs (seg_end g)
       (if current_pos < seg_start g
        then appended @ [text_segment s current_pos (seg_start g)]
        else appended)"

text \<open>
  The list \<open>segments\<close> when the constructor is done with it: empty after the early
  return, and otherwise sorted (\<open>list.sort\<close> is stable, as \<open>sort_key\<close> is), filled and
  sorted again.
\<close>

definition segments :: "string \<Rightarrow> segment list" where
  "segments s =
     (let found = found_segments s
      in if length found = 0 then []
         else
           let sorted = sort_key seg_start found;
               (current_pos, appended) = fill_gaps s sorted 0 [];
               final = (if current_pos < length s
                        then [text_segment s current_pos (length s)] else [])
           in sort_key seg_start (sorted @ appended @ final))"

text \<open>The node for one line of a text segment in the Job Opportunities section.\<close>

definition jobstr :: "string \<Rightarrow> node" where
  "jobstr jobline =
     (case re_match no_flags jobline_regex jobline of
        Some mjobline \<Rightarrow>
          (let n = texthtmlstr (''- '' @ group1 jobline mjobline @ [NL])
           in n\<lparr>html_str := html_str n @ ''<br />''\<rparr>)
      | None \<Rightarrow> texthtmlstr jobline)"

text \<open>
  The last loop, one segment at a time: the nodes appended for it, or the exception
  raised (a \<open>KeyError\<close> if a segment had no \<open>value\<close> where one is read).
\<close>

definition emit :: "bool \<Rightarrow> segment \<Rightarrow> error + node list" where
  "emit job seg =
     (if seg_type seg = ''p'' then Inr [parabreakstr False]
      else if seg_type seg = ''u'' then
        (case seg_value seg of None \<Rightarrow> Inl (KeyError ''value'') | Some v \<Rightarrow> Inr [urlstr v])
      else if seg_type seg = ''t'' then
        (case seg_value seg of
           None \<Rightarrow> Inl (KeyError ''value'')
         | Some v \<Rightarrow> if job then Inr (map jobstr (splitlines v)) else Inr [texthtmlstr v])
      else Inl (ValueError ''Segment type unknown.''))"

fun emit_all :: "bool \<Rightarrow> segment list \<Rightarrow> error + node list" where
  "emit_all job [] = Inr []"
| "emit_all job (seg # segs) =
     (case emit job seg of
        Inl e \<Rightarrow> Inl e
      | Inr ns \<Rightarrow> (case emit_all job segs of Inl e \<Rightarrow> Inl e | Inr ms \<Rightarrow> Inr (ns @ ms)))"

text \<open>The string that is classified: the boilerplate is put in front for a job section.\<close>

definition classified :: "string \<Rightarrow> bool \<Rightarrow> string" where
  "classified s job = (if job then job_opp_boilerplate @ s else s)"

text \<open>\<open>parsedstr(s, job)\<close>: the list \<open>texthtml_strings\<close> of the new object.\<close>

definition parsedstr :: "string \<Rightarrow> bool \<Rightarrow> error + node list" where
  "parsedstr s job = emit_all job (segments (classified s job))"

section \<open>\<open>aaswitems\<close>: the item parser\<close>

text \<open>
  The patterns of the constructor, in the order of their use: \<^verbatim>\<open>---\<close>,
  \<^verbatim>\<open> *$\<close>, \<^verbatim>\<open>^img-url: ?(.*)$\<close>, \<^verbatim>\<open>^img-caption: ?(.*)$\<close>,
  \<^verbatim>\<open>^ *$\<close>, \<^verbatim>\<open>^title: ?(.*)$\<close>, \<^verbatim>\<open>^from: ?(.*)$\<close>,
  \<^verbatim>\<open>^text:\s*(.*)\<close> and \<^verbatim>\<open> *Job Opportunities *\<close>.
\<close>

definition delimiter_regex :: re where
  "delimiter_regex = lits ''---''"

definition allwhitespace_regex :: re where
  "allwhitespace_regex = seqs [Star (Ch CHR '' ''), Eol]"

definition field_regex :: "string \<Rightarrow> re" where
  "field_regex name = seqs [Bol, lits name, Opt (Atom (Ch CHR '' '')), Group (Star Dot), Eol]"

definition imgurl_regex :: re where
  "imgurl_regex = field_regex ''img-url:''"

definition imgcaption_regex :: re where
  "imgcaption_regex = field_regex ''img-caption:''"

definition just_whitespace_regex :: re where
  "just_whitespace_regex = seqs [Bol, Star (Ch CHR '' ''), Eol]"

definition title_regex :: re where
  "title_regex = field_regex ''title:''"

definition from_regex :: re where
  "from_regex = field_regex ''from:''"

definition body_regex :: re where
  "body_regex = seqs [Bol, lits ''text:'', Star Sp, Group (Star Dot)]"

definition job_regex :: re where
  "job_regex = seqs [Star (Ch CHR '' ''), lits ''Job Opportunities'', Star (Ch CHR '' '')]"

text \<open>
  The caption of the image is the empty \<open>str\<close> at first and a \<open>texthtmlstr\<close> once an
  image header sets it.
\<close>

datatype caption = CaptionStr string | CaptionNode node

record image =
  url :: string
  caption :: caption

text \<open>An item is a dictionary with \<open>title\<close>, \<open>text\<close> and, if present, \<open>from\<close>.\<close>

record item =
  item_title :: string
  item_from :: "string option"
  item_text :: "node list"

record aasw =
  items :: "item list"
  image :: image

definition empty_aasw :: aasw where
  "empty_aasw = \<lparr>items = [], image = \<lparr>url = [], caption = CaptionStr []\<rparr>\<rparr>"

text \<open>\<open>isjob\<close>, the flag computed from the title of an item.\<close>

definition isjob :: "string \<Rightarrow> bool" where
  "isjob title = (re_search IGNORECASE job_regex title \<noteq> None)"

definition title_error :: "string \<Rightarrow> error" where
  "title_error itemtext =
     ValueError (''Title could not be found for the following item:'' @ [NL] @ itemtext @ [NL])"

definition body_error :: "string \<Rightarrow> error" where
  "body_error itemtext =
     ValueError (''Text body could not be found for the following item:'' @ [NL] @ itemtext @ [NL])"

text \<open>
  The body of the loop over \<open>itemtexts\<close>: the state after the block, or the exception
  raised.
\<close>

definition process_item :: "aasw \<Rightarrow> string \<Rightarrow> error + aasw" where
  "process_item st itemtext =
     (if re_match no_flags allwhitespace_regex itemtext \<noteq> None then Inr st
      else
        (case re_search MULTILINE imgurl_regex itemtext of
           Some mimgurl \<Rightarrow>
             (if re_match no_flags just_whitespace_regex (group1 itemtext mimgurl) = None
              then Inr (st\<lparr>image :=
                     \<lparr>url = group1 itemtext mimgurl,
                      caption =
                        (case re_search MULTILINE imgcaption_regex itemtext of
                           Some mimgcaption \<Rightarrow> CaptionNode (texthtmlstr (group1 itemtext mimgcaption))
                         | None \<Rightarrow> caption (image st))\<rparr>\<rparr>)
              else Inr st)
         | None \<Rightarrow>
             (case re_search MULTILINE_IGNORECASE title_regex itemtext of
                None \<Rightarrow> Inl (title_error itemtext)
              | Some mtitle \<Rightarrow>
                  (let title = rstrip (group1 itemtext mtitle);
                       from_line = map_option (group1 itemtext)
                                     (re_search MULTILINE_IGNORECASE from_regex itemtext)
                   in case re_search MULTILINE_IGNORECASE_DOTALL body_regex itemtext of
                        None \<Rightarrow> Inl (body_error itemtext)
                      | Some mbody \<Rightarrow>
                          (case parsedstr (rstrip (group1 itemtext mbody)) (isjob title) of
                             Inl e \<Rightarrow> Inl e
                           | Inr nodes \<Rightarrow>
                               Inr (st\<lparr>items := items st @
                                      [\<lparr>item_title = title, item_from = from_line,
                                        item_text = nodes\<rparr>]\<rparr>))))))"

fun process_items :: "aasw \<Rightarrow> string list \<Rightarrow> error + aasw" where
  "process_items st [] = Inr st"
| "process_items st (itemtext # itemtexts) =
     (case process_item st itemtext of
        Inl e \<Rightarrow> Inl e
      | Inr st' \<Rightarrow> process_items st' itemtexts)"

text \<open>The loop over the two file texts, each split at the delimiter.\<close>

definition process_filetext :: "aasw \<Rightarrow> string \<Rightarrow> error + aasw" where
  "process_filetext st filetext = process_items st (re_split no_flags delimiter_regex filetext)"

definition parse_texts :: "string \<Rightarrow> string \<Rightarrow> error + aasw" where
  "parse_texts fulltext finaltext =
     (case process_filetext empty_aasw fulltext of
        Inl e \<Rightarrow> Inl e
      | Inr st \<Rightarrow> process_filetext st finaltext)"

text \<open>
  \<open>aaswitems(filename)\<close>. The files are a map from path to decoded text; opening a path
  that is not there raises.
\<close>

definition aaswitems :: "(string \<rightharpoonup> string) \<Rightarrow> string \<Rightarrow> error + aasw" where
  "aaswitems fs filename =
     (case fs filename of
        None \<Rightarrow> Inl (FileNotFoundError filename)
      | Some fulltext \<Rightarrow>
          (case fs final_text_filename of
             None \<Rightarrow> Inl (FileNotFoundError final_text_filename)
           | Some finaltext \<Rightarrow> parse_texts fulltext finaltext))"

section \<open>The names of the output files\<close>

text \<open>\<^verbatim>\<open>(\.\S+)?$\<close> and \<^verbatim>\<open>\.txt$\<close>.\<close>

definition extension_regex :: re where
  "extension_regex = seqs [Opt (Group (Seq (Atom (Ch CHR ''.'')) (Plus NSp))), Eol]"

definition dot_txt_regex :: re where
  "dot_txt_regex = seqs [lits ''.txt'', Eol]"

definition out_html_fname :: "string \<Rightarrow> string" where
  "out_html_fname input_fname = re_sub1 no_flags extension_regex ''.html'' input_fname"

definition out_txt_fname :: "string \<Rightarrow> string" where
  "out_txt_fname input_fname = re_sub1 no_flags extension_regex ''.txt'' input_fname"

definition clobber_warning :: string where
  "clobber_warning =
     ''Warning! Rename input file to have a different extension so the .txt file does not get clobbered.''
     @ [NL, NL]"

section \<open>The other string classes and \<open>build_newsletter\<close>\<close>

definition editor_list :: string where
  "editor_list = ''Jeremy Bailin, Nicolle Zellner, Sethanne Howard, and Hannah Jang-Condell''"

text \<open>An \<open>int\<close> that is not negative, formatted in an f-string.\<close>

fun str_nat :: "nat \<Rightarrow> string" where
  "str_nat n =
     (if n < 10 then [char_of (48 + n)] else str_nat (n div 10) @ [char_of (48 + n mod 10)])"

declare str_nat.simps [simp del]

definition separator :: node where
  "separator = \<lparr>text_str = replicate 79 CHR ''-'' @ [NL], html_str = ''<hr />''\<rparr>"

definition singleline :: "string \<Rightarrow> node" where
  "singleline s = \<lparr>text_str = rstrip s @ [NL], html_str = escape s @ ''<br />'' @ [NL]\<rparr>"

text \<open>
  \<open>titleline\<close>; \<open>uniqident\<close> defaults to \<open>None\<close>, and \<open>if uniqident\<close> holds for a
  string that is not empty.
\<close>

definition titleline :: "string \<Rightarrow> nat \<Rightarrow> string option \<Rightarrow> bool \<Rightarrow> node" where
  "titleline title itemnumber uniqident from_toc =
     (let itemstring =
            (case uniqident of
               None \<Rightarrow> ''item'' @ str_nat itemnumber
             | Some u \<Rightarrow>
                 if u \<noteq> [] then ''item'' @ u @ ''-'' @ str_nat itemnumber
                 else ''item'' @ str_nat itemnumber)
      in \<lparr>text_str = str_nat itemnumber @ ''. '' @ title @ [NL],
          html_str =
            (if from_toc
             then ''<a href='' @ [CHR 0x22] @ ''#'' @ itemstring @ [CHR 0x22] @ ''>''
                  @ str_nat itemnumber @ ''. '' @ title @ ''</a><br />'' @ [NL]
             else ''<div id='' @ [CHR 0x22] @ itemstring @ [CHR 0x22] @ ''>''
                  @ str_nat itemnumber @ ''. '' @ title @ ''</div>'' @ [NL])\<rparr>)"

definition htmlonly :: "string \<Rightarrow> node" where
  "htmlonly code = \<lparr>text_str = [], html_str = code\<rparr>"

text \<open>
  What \<open>build_newsletter\<close> takes from outside the program: the two strings it derives
  from the date of the coming Friday, and, for the URL of an image, its width and height
  as \<open>requests\<close> and \<open>PIL\<close> give them, or the exception they raise.
\<close>

record environment =
  env_issue_datestr :: string
  env_uniqident :: string
  env_image_size :: "string \<Rightarrow> error + nat \<times> nat"

definition image_html :: "string \<Rightarrow> nat \<Rightarrow> nat \<Rightarrow> string \<Rightarrow> string" where
  "image_html image_url width height caption_html =
     ''<div class='' @ [CHR 0x22] @ ''separator'' @ [CHR 0x22] @ '' style='' @ [CHR 0x22]
     @ ''clear: both;'' @ [CHR 0x22] @ ''><a href='' @ [CHR 0x22] @ image_url @ [CHR 0x22]
     @ '' style='' @ [CHR 0x22]
     @ ''display: block; padding: 1em 0; text-align: center; clear: right; float: right;''
     @ [CHR 0x22] @ ''><img alt='' @ [CHR 0x22, CHR 0x22] @ '' border='' @ [CHR 0x22] @ ''0''
     @ [CHR 0x22] @ '' width='' @ [CHR 0x22] @ ''320'' @ [CHR 0x22]
     @ '' data-original-height='' @ [CHR 0x22] @ str_nat height @ [CHR 0x22]
     @ '' data-original-width='' @ [CHR 0x22] @ str_nat width @ [CHR 0x22]
     @ '' src='' @ [CHR 0x22] @ image_url @ [CHR 0x22] @ ''><br />'' @ caption_html
     @ ''</a></div>''"

text \<open>
  The image and its caption, if the header gave a URL. The caption is still the empty
  \<open>str\<close> when the header had no caption line, and \<open>print_html\<close> of a \<open>str\<close> raises.
\<close>

definition image_nodes :: "environment \<Rightarrow> aasw \<Rightarrow> error + node list" where
  "image_nodes env its =
     (if url (image its) \<noteq> [] then
        (case env_image_size env (url (image its)) of
           Inl e \<Rightarrow> Inl e
         | Inr (width, height) \<Rightarrow>
             (case caption (image its) of
                CaptionStr c \<Rightarrow>
                  Inl (AttributeError
                        ([CHR 0x27] @ ''str'' @ [CHR 0x27] @ '' object has no attribute ''
                         @ [CHR 0x27] @ ''print_html'' @ [CHR 0x27]))
              | CaptionNode c \<Rightarrow>
                  Inr [htmlonly (image_html (url (image its)) width height (print_html c))]))
      else Inr [])"

text \<open>One item of the body, numbered from 1.\<close>

definition item_nodes :: "string \<Rightarrow> nat \<times> item \<Rightarrow> node list" where
  "item_nodes uniqident numbered =
     (let ti = fst numbered; item = snd numbered
      in [parabreakstr True, separator, titleline (item_title item) ti (Some uniqident) False]
         @ (case item_from item of
              Some sender \<Rightarrow> [texthtmlstr (''From: '' @ sender), parabreakstr True]
            | None \<Rightarrow> [])
         @ [parabreakstr True]
         @ item_text item
         @ [parabreakstr True,
            htmlonly (''<a href='' @ [CHR 0x22] @ ''#'' @ uniqident @ ''-top'' @ [CHR 0x22]
                      @ ''>Back to top.</a></p>'')])"

text \<open>\<open>build_newsletter(items)\<close>: the list \<open>texthtml_strings\<close> of the newsletter.\<close>

definition build_newsletter :: "environment \<Rightarrow> aasw \<Rightarrow> error + node list" where
  "build_newsletter env its =
     (let issue_datestr = env_issue_datestr env;
          uniqident = env_uniqident env;
          numbered = zip [1..<Suc (length (items its))] (items its)
      in case image_nodes env its of
           Inl e \<Rightarrow> Inl e
         | Inr img \<Rightarrow>
             (case parsedstr
                     ''An online version of this newsletter will be available at http://womeninastronomy.blogspot.com/ at 3:00 PM ET every Friday.''
                     False of
                Inl e \<Rightarrow> Inl e
              | Inr online \<Rightarrow>
                  Inr (img
                       @ [htmlonly (''<div id='' @ [CHR 0x22] @ uniqident @ ''-top'' @ [CHR 0x22]
                                    @ ''></div>''),
                          singleline ''AAS Committee on the Status of Women'',
                          singleline (''Issue of '' @ issue_datestr),
                          singleline (''eds: '' @ editor_list),
                          parabreakstr True,
                          singleline ''[We hope you all are taking care of yourselves and each other. --eds.]'',
                          parabreakstr True,
                          singleline (''This week'' @ [CHR 0x27] @ ''s issues:''),
                          parabreakstr True]
                       @ map (\<lambda>numbered_item.
                                titleline (item_title (snd numbered_item)) (fst numbered_item)
                                  (Some uniqident) True) numbered
                       @ [parabreakstr True]
                       @ online
                       @ [htmlonly ''<!--more-->'', parabreakstr True]
                       @ concat (map (item_nodes uniqident) numbered))))"

section \<open>The main program\<close>

text \<open>
  What a run does: it prints a message and exits with a status, or an exception ends it
  before a file is opened for writing, or it writes \<open>print_html()\<close> of the newsletter
  to the first path and then \<open>print_text()\<close> of it to the second.
\<close>

datatype outcome = Exit string nat | Raised error | Wrote string string

definition main ::
  "environment \<Rightarrow> string \<Rightarrow> string list \<Rightarrow> (string \<rightharpoonup> string) \<Rightarrow> outcome" where
  "main env prog args fs =
     (if length (prog # args) \<noteq> 2 then Exit (''Usage: '' @ prog @ '' infile'' @ [NL, NL]) 1
      else
        (let input_fname = (prog # args) ! 1
         in if re_match no_flags dot_txt_regex input_fname \<noteq> None then Exit clobber_warning 1
            else
              (case aaswitems fs input_fname of
                 Inl e \<Rightarrow> Raised e
               | Inr newsletter_items \<Rightarrow>
                   (case build_newsletter env newsletter_items of
                      Inl e \<Rightarrow> Raised e
                    | Inr full_newsletter \<Rightarrow>
                        Wrote (out_html_fname input_fname) (out_txt_fname input_fname)))))"

section \<open>Predicates of the statements\<close>

text \<open>
  A segment list tiles the text \<open>[0, n)\<close> when it is contiguous from 0 to \<open>n\<close>, each
  segment starting where the previous one ended and none being empty; such a list is
  sorted by start, has no overlap and no gap.
\<close>

fun contiguous_from :: "nat \<Rightarrow> segment list \<Rightarrow> nat \<Rightarrow> bool" where
  "contiguous_from p [] n = (p = n)"
| "contiguous_from p (g # gs) n =
     (seg_start g = p \<and> p < seg_end g \<and> contiguous_from (seg_end g) gs n)"

text \<open>The substring of the text that a segment covers.\<close>

definition covered :: "string \<Rightarrow> segment \<Rightarrow> string" where
  "covered s g = slice s (seg_start g) (seg_end g)"

definition exactly_tiles :: "segment list \<Rightarrow> string \<Rightarrow> bool" where
  "exactly_tiles segs s =
     (contiguous_from 0 segs (length s) \<and> concat (map (covered s) segs) = s)"

text \<open>
  What the last loop relies on: a segment is a paragraph break, a URL with a value, or
  a text segment whose value is the substring it covers.
\<close>

definition known_segment :: "string \<Rightarrow> segment \<Rightarrow> bool" where
  "known_segment s g =
     (seg_type g = ''p'' \<or> (seg_type g = ''u'' \<and> seg_value g \<noteq> None)
      \<or> (seg_type g = ''t'' \<and> seg_value g = Some (covered s g)))"

text \<open>A literal word stands at position \<open>i\<close> of the text (under the flags).\<close>

fun lit_at :: "flags \<Rightarrow> string \<Rightarrow> string \<Rightarrow> nat \<Rightarrow> bool" where
  "lit_at f [] s i = True"
| "lit_at f (c # cs) s i = (i < length s \<and> atom_ok f (Ch c) (s ! i) \<and> lit_at f cs s (Suc i))"




text \<open>
  The lines of a block, each given by the text from its first character on: the block
  itself, and what follows each newline. A field name contains no newline, so a line
  begins with the name exactly when the text from its start on does.
\<close>

fun after_newlines :: "string \<Rightarrow> string list" where
  "after_newlines [] = []"
| "after_newlines (c # cs) = (if c = NL then cs # after_newlines cs else after_newlines cs)"

definition line_starts :: "string \<Rightarrow> string list" where
  "line_starts s = s # after_newlines s"

definition some_line_begins :: "string \<Rightarrow> string \<Rightarrow> bool" where
  "some_line_begins p s = list_ex (prefix p) (line_starts s)"

definition some_line_begins_ci :: "string \<Rightarrow> string \<Rightarrow> bool" where
  "some_line_begins_ci p s =
     list_ex (\<lambda>l. prefix (map ascii_lower p) (map ascii_lower l)) (line_starts s)"

text \<open>
  The value of a field: on the first line that begins with the name, what follows the
  name and one optional space, up to the end of the line.
\<close>

definition drop_one_space :: "string \<Rightarrow> string" where
  "drop_one_space l = (case l of [] \<Rightarrow> [] | c # cs \<Rightarrow> if c = CHR '' '' then cs else l)"

definition field_value :: "string \<Rightarrow> string \<Rightarrow> string" where
  "field_value p b =
     (case filter (prefix p) (line_starts b) of
        [] \<Rightarrow> []
      | l # _ \<Rightarrow> takeWhile (\<lambda>c. c \<noteq> NL) (drop_one_space (drop (length p) l)))"

definition all_spaces :: "string \<Rightarrow> bool" where
  "all_spaces v = list_all (\<lambda>c. c = CHR '' '') v"

text \<open>
  The span of group 1 when a field pattern matches at position \<open>i\<close>: from behind the
  name and one optional space to the end of the line.
\<close>

definition value_span :: "flags \<Rightarrow> string \<Rightarrow> string \<Rightarrow> nat \<Rightarrow> nat \<times> nat" where
  "value_span f p s i =
     (let j = i + length p;
          q = (if j < length s \<and> atom_ok f (Ch CHR '' '') (s ! j) then Suc j else j)
      in (q, q + run f Dot s q))"

text \<open>The message of an exception.\<close>

fun message :: "error \<Rightarrow> string" where
  "message (ValueError m) = m"
| "message (KeyError m) = m"
| "message (FileNotFoundError m) = m"
| "message (AttributeError m) = m"
| "message (ExternalError m) = m"

text \<open>
  Two properties of a pattern that can be read off its syntax: it never matches the
  empty string, and the characters it consumes all satisfy a predicate (what a lookahead
  inspects is not consumed).
\<close>

fun never_empty :: "re \<Rightarrow> bool" where
  "never_empty (Atom a) = True"
| "never_empty (Seq r1 r2) = (never_empty r1 \<or> never_empty r2)"
| "never_empty (Alt r1 r2) = (never_empty r1 \<and> never_empty r2)"
| "never_empty (Plus a) = True"
| "never_empty (PlusLazy a) = True"
| "never_empty (Group r) = never_empty r"
| "never_empty r = False"

fun consumes_only :: "(char \<Rightarrow> bool) \<Rightarrow> flags \<Rightarrow> re \<Rightarrow> bool" where
  "consumes_only P f (Atom a) = (\<forall>c. atom_ok f a c \<longrightarrow> P c)"
| "consumes_only P f (Star a) = (\<forall>c. atom_ok f a c \<longrightarrow> P c)"
| "consumes_only P f (Plus a) = (\<forall>c. atom_ok f a c \<longrightarrow> P c)"
| "consumes_only P f (PlusLazy a) = (\<forall>c. atom_ok f a c \<longrightarrow> P c)"
| "consumes_only P f (Seq r1 r2) = (consumes_only P f r1 \<and> consumes_only P f r2)"
| "consumes_only P f (Alt r1 r2) = (consumes_only P f r1 \<and> consumes_only P f r2)"
| "consumes_only P f (Opt r) = consumes_only P f r"
| "consumes_only P f (Group r) = consumes_only P f r"
| "consumes_only P f r = True"

text \<open>
  Matches, and segments, that follow one another from position \<open>p\<close> on within
  \<open>[0, n]\<close>, none empty and none overlapping the next.
\<close>

fun span_chain :: "nat \<Rightarrow> nat \<Rightarrow> rematch list \<Rightarrow> bool" where
  "span_chain n p [] = True"
| "span_chain n p (m # ms) =
     (p \<le> m_start m \<and> m_start m < m_end m \<and> m_end m \<le> n \<and> span_chain n (m_end m) ms)"

fun seg_chain :: "nat \<Rightarrow> nat \<Rightarrow> segment list \<Rightarrow> bool" where
  "seg_chain n p [] = True"
| "seg_chain n p (g # gs) =
     (p \<le> seg_start g \<and> seg_start g < seg_end g \<and> seg_end g \<le> n \<and> seg_chain n (seg_end g) gs)"

text \<open>
  Segments in any order whose spans are not empty, lie within \<open>[0, n]\<close>, do not overlap
  and start at different positions; and segments whose characters all satisfy a predicate.
\<close>

definition spans_ok :: "nat \<Rightarrow> segment list \<Rightarrow> bool" where
  "spans_ok n L =
     ((\<forall>g\<in>set L. seg_start g < seg_end g \<and> seg_end g \<le> n)
      \<and> (\<forall>g\<in>set L. \<forall>h\<in>set L. seg_start g < seg_start h \<longrightarrow> seg_end g \<le> seg_start h)
      \<and> distinct (map seg_start L))"

definition all_chars :: "(char \<Rightarrow> bool) \<Rightarrow> string \<Rightarrow> segment \<Rightarrow> bool" where
  "all_chars P s g = (\<forall>k. seg_start g \<le> k \<and> k < seg_end g \<longrightarrow> P (s ! k))"

text \<open>
  The sorted spans with every gap filled, in text order: what the gap loop and the second
  sort produce together.
\<close>

definition final_gap :: "string \<Rightarrow> nat \<Rightarrow> segment list" where
  "final_gap s current_pos =
     (if current_pos < length s then [text_segment s current_pos (length s)] else [])"

fun tiled :: "string \<Rightarrow> nat \<Rightarrow> segment list \<Rightarrow> segment list" where
  "tiled s cur [] = final_gap s cur"
| "tiled s cur (g # gs) =
     (if cur < seg_start g then [text_segment s cur (seg_start g)] else [])
     @ g # tiled s (seg_end g) gs"




section \<open>Facts about the matcher\<close>

lemma rmatch_lits:
  "rmatch f s (lits p) st = (if lit_at f p s (fst st) then [(fst st + length p, snd st)] else [])"
proof (induction p arbitrary: st)
  case Nil
  then show ?case by (simp add: lits_def)
next
  case (Cons c cs)
  have unf: "lits (c # cs) = Seq (Atom (Ch c)) (lits cs)" by (simp add: lits_def)
  show ?case unfolding unf by (simp add: Cons.IH)
qed

lemma search_from_filter:
  "search_from f r s k =
     (case filter (\<lambda>i. rmatch f s r (i, None) \<noteq> []) [k..<Suc (length s)] of
        [] \<Rightarrow> None
      | i # _ \<Rightarrow> Some (mk_match i (hd (rmatch f s r (i, None)))))"
proof (induction f r s k rule: search_from.induct)
  case (1 f r s i)
  show ?case
  proof (cases "length s < i")
    case True
    then show ?thesis by (simp add: search_from.simps [of f r s i])
  next
    case False
    then have upt: "[i..<Suc (length s)] = i # [Suc i..<Suc (length s)]"
      by (simp add: upt_conv_Cons)
    show ?thesis
    proof (cases "rmatch f s r (i, None)")
      case Nil
      with "1.IH" [OF False Nil] False show ?thesis
        by (simp add: search_from.simps [of f r s i] upt del: upt_Suc)
    next
      case (Cons st sts)
      with False show ?thesis
        by (simp add: search_from.simps [of f r s i] upt del: upt_Suc)
    qed
  qed
qed

lemma re_search_None_iff:
  "re_search f r s = None \<longleftrightarrow> (\<forall>i\<le>length s. rmatch f s r (i, None) = [])"
proof -
  have "re_search f r s = None \<longleftrightarrow>
          filter (\<lambda>i. rmatch f s r (i, None) \<noteq> []) [0..<Suc (length s)] = []"
    unfolding re_search_def search_from_filter by (simp split: list.splits del: upt_Suc)
  also have "\<dots> \<longleftrightarrow> (\<forall>i\<le>length s. rmatch f s r (i, None) = [])"
    unfolding filter_empty_conv by (auto simp: less_Suc_eq_le simp del: upt_Suc)
  finally show ?thesis .
qed

lemma rmatch_Seq_nonempty:
  "rmatch f s (Seq r1 r2) st \<noteq> [] \<longleftrightarrow> (\<exists>m\<in>set (rmatch f s r1 st). rmatch f s r2 m \<noteq> [])"
  by simp

lemma set_rmatch_Star:
  "set (rmatch f s (Star a) st) = {(j, snd st) | j. fst st \<le> j \<and> j \<le> fst st + run f a s (fst st)}"
  by (auto simp: less_Suc_eq_le simp del: upt_Suc)

lemma rmatch_Star_nonempty: "rmatch f s (Star a) st \<noteq> []"
  by simp

lemma lit_at_prefix_ci:
  "ignorecase f \<Longrightarrow> lit_at f p s i \<longleftrightarrow> prefix (map ascii_lower p) (map ascii_lower (drop i s))"
proof (induction p arbitrary: i)
  case Nil
  then show ?case by simp
next
  case (Cons c cs)
  show ?case
  proof (cases "i < length s")
    case True
    then have "drop i s = s ! i # drop (Suc i) s" by (simp add: Cons_nth_drop_Suc)
    with Cons True show ?thesis by auto
  next
    case False
    then show ?thesis by simp
  qed
qed



lemma ex_between: "\<exists>a::nat. x \<le> a \<and> a \<le> x + n"
  by (rule exI [of _ x]) simp



lemma run_le: "i + run f a s i \<le> max i (length s)"
proof -
  have "run f a s i \<le> length (drop i s)" unfolding run_def by (rule length_takeWhile_le)
  then show ?thesis by simp
qed

lemma run_nth_from: "k < run f a s i \<Longrightarrow> atom_ok f a (s ! (i + k))"
proof -
  assume k: "k < run f a s i"
  then have "takeWhile (atom_ok f a) (drop i s) ! k \<in> set (takeWhile (atom_ok f a) (drop i s))"
    by (simp add: run_def)
  then have ok: "atom_ok f a (takeWhile (atom_ok f a) (drop i s) ! k)"
    by (auto dest: set_takeWhileD)
  from k have "k < length (drop i s)"
    using length_takeWhile_le [of "atom_ok f a" "drop i s"] by (simp add: run_def)
  with ok k show ?thesis by (simp add: run_def takeWhile_nth)
qed

lemma rmatch_bounds:
  "m \<in> set (rmatch f s r st) \<Longrightarrow> fst st \<le> fst m \<and> (fst st \<le> length s \<longrightarrow> fst m \<le> length s)"
proof (induction r arbitrary: st m)
  case (Seq r1 r2)
  then obtain m1 where "m1 \<in> set (rmatch f s r1 st)" "m \<in> set (rmatch f s r2 m1)" by auto
  with Seq.IH(1) [of m1 st] Seq.IH(2) [of m m1] show ?case by auto
next
  case (Star a)
  then show ?case using run_le [of "fst st" f a s] by (auto simp del: upt_Suc)
next
  case (Plus a)
  then show ?case using run_le [of "fst st" f a s] by (auto simp del: upt_Suc)
next
  case (PlusLazy a)
  then show ?case using run_le [of "fst st" f a s] by (auto simp del: upt_Suc)
next
  case (Group r)
  then obtain m' where "m' \<in> set (rmatch f s r st)" "fst m = fst m'" by auto
  with Group.IH [of m' st] show ?case by simp
qed (auto split: if_splits)

lemma rmatch_never_empty:
  "never_empty r \<Longrightarrow> m \<in> set (rmatch f s r st) \<Longrightarrow> fst st < fst m"
proof (induction r arbitrary: st m)
  case (Seq r1 r2)
  then obtain m1 where m1: "m1 \<in> set (rmatch f s r1 st)" "m \<in> set (rmatch f s r2 m1)" by auto
  from rmatch_bounds [OF m1(1)] rmatch_bounds [OF m1(2)]
  have le: "fst st \<le> fst m1" "fst m1 \<le> fst m" by simp_all
  from Seq.prems(1) have "never_empty r1 \<or> never_empty r2" by simp
  then show ?case
  proof
    assume "never_empty r1"
    from Seq.IH(1) [OF this m1(1)] le show ?thesis by simp
  next
    assume "never_empty r2"
    from Seq.IH(2) [OF this m1(2)] le show ?thesis by simp
  qed
next
  case (Group r)
  then obtain m' where "m' \<in> set (rmatch f s r st)" "fst m = fst m'" by auto
  with Group.IH [of m' st] Group.prems(1) show ?case by simp
qed (auto split: if_splits simp del: upt_Suc)

lemma rmatch_chars:
  "consumes_only P f r \<Longrightarrow> m \<in> set (rmatch f s r st) \<Longrightarrow> fst st \<le> k \<Longrightarrow> k < fst m
   \<Longrightarrow> P (s ! k)"
proof (induction r arbitrary: st m)
  case (Seq r1 r2)
  then obtain m1 where m1: "m1 \<in> set (rmatch f s r1 st)" "m \<in> set (rmatch f s r2 m1)" by auto
  show ?case
  proof (cases "k < fst m1")
    case True
    from Seq.IH(1) [OF _ m1(1) Seq.prems(3) True] Seq.prems(1) show ?thesis by simp
  next
    case False
    then have "fst m1 \<le> k" by simp
    from Seq.IH(2) [OF _ m1(2) this Seq.prems(4)] Seq.prems(1) show ?thesis by simp
  qed
next
  case (Star a)
  then have "k - fst st < run f a s (fst st)" by (auto simp del: upt_Suc)
  from run_nth_from [OF this] Star.prems(1,3) show ?case by simp
next
  case (Plus a)
  then have "k - fst st < run f a s (fst st)" by (auto simp del: upt_Suc)
  from run_nth_from [OF this] Plus.prems(1,3) show ?case by simp
next
  case (PlusLazy a)
  then have "k - fst st < run f a s (fst st)" by (auto simp del: upt_Suc)
  from run_nth_from [OF this] PlusLazy.prems(1,3) show ?case by simp
next
  case (Atom a)
  then have "k = fst st" "atom_ok f a (s ! fst st)" by (auto split: if_splits)
  with Atom.prems(1) show ?case by simp
next
  case (Group r)
  then obtain m' where "m' \<in> set (rmatch f s r st)" "fst m = fst m'" by auto
  with Group.IH [of m' st] Group.prems show ?case by simp
qed (auto split: if_splits)

lemma search_from_Some:
  assumes "search_from f r s i = Some m"
  shows "i \<le> m_start m \<and> m_start m \<le> length s
     \<and> (m_end m, m_group1 m) \<in> set (rmatch f s r (m_start m, None))"
proof -
  from assms obtain j js where
    j: "filter (\<lambda>i. rmatch f s r (i, None) \<noteq> []) [i..<Suc (length s)] = j # js"
    and m: "m = mk_match j (hd (rmatch f s r (j, None)))"
    unfolding search_from_filter by (auto split: list.splits simp del: upt_Suc)
  from j have "j \<in> set (filter (\<lambda>i. rmatch f s r (i, None) \<noteq> []) [i..<Suc (length s)])"
    by simp
  then have "i \<le> j" "j \<le> length s" "rmatch f s r (j, None) \<noteq> []"
    by (auto simp del: upt_Suc)
  then show ?thesis unfolding m by (simp add: mk_match_def)
qed

lemma finditer_matches:
  "m \<in> set (finditer_from f r s i)
   \<Longrightarrow> m_start m \<le> length s \<and> (m_end m, m_group1 m) \<in> set (rmatch f s r (m_start m, None))"
proof (induction f r s i rule: finditer_from.induct)
  case (1 f r s i)
  show ?case
  proof (cases "search_from f r s i")
    case None
    with "1.prems" show ?thesis by (simp add: finditer_from.simps [of f r s i])
  next
    case (Some m0)
    with "1.prems" have "m = m0 \<or> m \<in> set (finditer_from f r s
        (if m_start m0 < m_end m0 then m_end m0 else Suc (m_start m0)))"
      by (simp add: finditer_from.simps [of f r s i])
    then show ?thesis
    proof
      assume "m = m0"
      with search_from_Some [OF Some] show ?thesis by simp
    next
      assume "m \<in> set (finditer_from f r s
        (if m_start m0 < m_end m0 then m_end m0 else Suc (m_start m0)))"
      with "1.IH" [OF Some] show ?thesis by simp
    qed
  qed
qed

lemma finditer_chain:
  "never_empty r \<Longrightarrow> span_chain (length s) i (finditer_from f r s i)"
proof (induction f r s i rule: finditer_from.induct)
  case (1 f r s i)
  show ?case
  proof (cases "search_from f r s i")
    case None
    then show ?thesis by (simp add: finditer_from.simps [of f r s i])
  next
    case (Some m0)
    from search_from_Some [OF Some] have b: "i \<le> m_start m0" "m_start m0 \<le> length s"
      and mem: "(m_end m0, m_group1 m0) \<in> set (rmatch f s r (m_start m0, None))" by simp_all
    from rmatch_never_empty [OF "1.prems" mem] have lt: "m_start m0 < m_end m0" by simp
    from rmatch_bounds [OF mem] b have le: "m_end m0 \<le> length s" by simp
    from "1.IH" [OF Some "1.prems"] lt have "span_chain (length s) (m_end m0) (finditer_from f r s (m_end m0))"
      by simp
    with Some b lt le show ?thesis by (simp add: finditer_from.simps [of f r s i])
  qed
qed

lemma span_chain_lower: "span_chain n p ms \<Longrightarrow> m \<in> set ms \<Longrightarrow> p \<le> m_start m"
proof (induction ms arbitrary: p)
  case Nil
  then show ?case by simp
next
  case (Cons a ms)
  show ?case
  proof (cases "m = a")
    case True
    with Cons.prems show ?thesis by simp
  next
    case False
    with Cons.prems have "m \<in> set ms" "span_chain n (m_end a) ms" "p \<le> m_end a" by auto
    with Cons.IH [of "m_end a"] show ?thesis by simp
  qed
qed

lemma span_chain_pairwise:
  "span_chain n p ms \<Longrightarrow>
     (\<forall>m\<in>set ms. m_start m < m_end m \<and> m_end m \<le> n)
     \<and> (\<forall>m\<in>set ms. \<forall>m'\<in>set ms. m_start m < m_start m' \<longrightarrow> m_end m \<le> m_start m')
     \<and> distinct (map m_start ms)"
proof (induction ms arbitrary: p)
  case Nil
  then show ?case by simp
next
  case (Cons a ms)
  then have ch: "span_chain n (m_end a) ms" and a: "m_start a < m_end a" "m_end a \<le> n" by simp_all
  have after: "m_end a \<le> m_start m" if "m \<in> set ms" for m
    using span_chain_lower [OF ch that] .
  from Cons.IH [OF ch] have IH1: "\<forall>m\<in>set ms. m_start m < m_end m \<and> m_end m \<le> n"
    and IH2: "\<forall>m\<in>set ms. \<forall>m'\<in>set ms. m_start m < m_start m' \<longrightarrow> m_end m \<le> m_start m'"
    and IH3: "distinct (map m_start ms)" by simp_all
  have 1: "\<forall>m\<in>set (a # ms). m_start m < m_end m \<and> m_end m \<le> n" using a IH1 by simp
  have 2: "\<forall>m\<in>set (a # ms). \<forall>m'\<in>set (a # ms). m_start m < m_start m' \<longrightarrow> m_end m \<le> m_start m'"
    using a IH2 after by (auto dest!: after)
  have 3: "distinct (map m_start (a # ms))"
    using a IH3 after by (auto dest!: after)
  from 1 2 3 show ?case by blast
qed

section \<open>Facts about the patterns of the item parser\<close>

lemma upt_0_Suc: "[0..<Suc n] = 0 # map Suc [0..<n]"
  by (simp add: upt_conv_Cons map_Suc_upt del: upt_Suc)

lemma after_newlines_upt:
  "after_newlines s = map (\<lambda>i. drop (Suc i) s) (filter (\<lambda>i. s ! i = NL) [0..<length s])"
proof (induction s)
  case Nil
  then show ?case by simp
next
  case (Cons c cs)
  have "[0..<length (c # cs)] = 0 # map Suc [0..<length cs]"
    using upt_0_Suc [of "length cs"] by simp
  then show ?case
    by (simp add: Cons.IH filter_map comp_def del: upt_Suc)
qed

lemma line_starts_upt:
  assumes "multiline f"
  shows "line_starts s = map (\<lambda>i. drop i s) (filter (at_bol f s) [0..<Suc (length s)])"
proof -
  have "filter (at_bol f s \<circ> Suc) [0..<length s] = filter (\<lambda>i. s ! i = NL) [0..<length s]"
    using assms by (intro filter_cong) (auto simp: at_bol_def)
  then show ?thesis
    unfolding line_starts_def after_newlines_upt upt_0_Suc
    by (simp add: filter_map at_bol_def comp_def del: upt_Suc)
qed

lemma lit_at_prefix:
  "\<not> ignorecase f \<Longrightarrow> lit_at f p s i \<longleftrightarrow> prefix p (drop i s)"
proof (induction p arbitrary: i)
  case Nil
  then show ?case by simp
next
  case (Cons c cs)
  show ?case
  proof (cases "i < length s")
    case True
    then have "drop i s = s ! i # drop (Suc i) s" by (simp add: Cons_nth_drop_Suc)
    with Cons True show ?thesis by auto
  next
    case False
    then show ?thesis by simp
  qed
qed

lemma lit_at_length: "lit_at f p s i \<Longrightarrow> i \<le> length s \<Longrightarrow> i + length p \<le> length s"
proof (induction p arbitrary: i)
  case Nil
  then show ?case by simp
next
  case (Cons c cs)
  from Cons.prems(1) have "i < length s" and "lit_at f cs s (Suc i)" by simp_all
  with Cons.IH [of "Suc i"] show ?case by simp
qed

lemma run_Dot_eol:
  assumes "multiline f" and "\<not> dotall f" and "q \<le> length s"
  shows "at_eol f s (q + run f Dot s q)"
proof (cases "run f Dot s q < length (drop q s)")
  case True
  then have "\<not> atom_ok f Dot (drop q s ! run f Dot s q)"
    unfolding run_def by (rule nth_length_takeWhile)
  moreover from True have "q + run f Dot s q < length s" by simp
  ultimately show ?thesis using assms by (simp add: at_eol_def)
next
  case False
  moreover have "run f Dot s q \<le> length (drop q s)"
    unfolding run_def by (rule length_takeWhile_le)
  ultimately have "q + run f Dot s q = length s" using assms(3) by simp
  then show ?thesis by (simp add: at_eol_def)
qed

lemma field_tail:
  assumes "multiline f" and "\<not> dotall f" and "q \<le> length s"
  shows "\<exists>rest. rmatch f s (Seq (Group (Star Dot)) (Seq Eol Eps)) (q, g)
           = (q + run f Dot s q, Some (q, q + run f Dot s q)) # rest"
  using run_Dot_eol [OF assms] by simp

lemma field_regex_no_match:
  "\<not> (at_bol f s i \<and> lit_at f p s i) \<Longrightarrow> rmatch f s (field_regex p) (i, None) = []"
  by (auto simp: field_regex_def seqs_def rmatch_lits simp del: rmatch.simps(5,6,9))

lemma field_regex_first:
  assumes "multiline f" and "\<not> dotall f" and "i \<le> length s"
    and "at_bol f s i" and "lit_at f p s i"
  shows "\<exists>rest. rmatch f s (field_regex p) (i, None)
           = (snd (value_span f p s i), Some (value_span f p s i)) # rest"
proof -
  let ?tail = "Seq (Group (Star Dot)) (Seq Eol Eps)"
  let ?j = "i + length p"
  let ?q = "if ?j < length s \<and> atom_ok f (Ch CHR '' '') (s ! ?j) then Suc ?j else ?j"
  have j: "?j \<le> length s" using assms(3,5) by (rule lit_at_length [rotated])
  then have q: "?q \<le> length s" by auto
  have unf: "rmatch f s (field_regex p) (i, None)
      = concat (map (rmatch f s ?tail) (rmatch f s (Opt (Atom (Ch CHR '' ''))) (?j, None)))"
    using assms(4,5)
    by (simp add: field_regex_def seqs_def rmatch_lits del: rmatch.simps(2,5,6,9))
  have opt: "\<exists>more. rmatch f s (Opt (Atom (Ch CHR '' ''))) (?j, None) = (?q, None) # more"
    by simp
  from field_tail [OF assms(1,2) q, of None] obtain rest where
    "rmatch f s ?tail (?q, None) = (?q + run f Dot s ?q, Some (?q, ?q + run f Dot s ?q)) # rest"
    by blast
  with opt unf show ?thesis
    by (auto simp: value_span_def Let_def simp del: rmatch.simps)
qed

lemma field_regex_match:
  assumes "multiline f" and "\<not> dotall f" and "i \<le> length s"
  shows "rmatch f s (field_regex p) (i, None) \<noteq> [] \<longleftrightarrow> at_bol f s i \<and> lit_at f p s i"
  using field_regex_no_match [of f s i p] field_regex_first [OF assms, of p] by auto

lemma body_like_match:
  "rmatch f s (seqs [Bol, lits p, Star a, Group (Star b)]) (i, None) \<noteq> [] \<longleftrightarrow>
     at_bol f s i \<and> lit_at f p s i"
  unfolding seqs_def
  by (auto simp: rmatch_lits set_rmatch_Star ex_between rmatch_Star_nonempty
      simp del: rmatch.simps(6))

lemma body_regex_no_match:
  "rmatch f s body_regex (i, None) = [] \<longleftrightarrow> \<not> (at_bol f s i \<and> lit_at f ''text:'' s i)"
  unfolding body_regex_def using body_like_match [of f s "''text:''" Sp Dot i] by blast

lemma re_match_None_iff: "re_match f r s = None \<longleftrightarrow> rmatch f s r (0, None) = []"
  by (simp add: re_match_def split: list.splits)

lemma run_nth: "k < run f a s 0 \<Longrightarrow> atom_ok f a (s ! k)"
proof -
  assume k: "k < run f a s 0"
  then have "takeWhile (atom_ok f a) s ! k \<in> set (takeWhile (atom_ok f a) s)"
    by (simp add: run_def)
  then have "atom_ok f a (takeWhile (atom_ok f a) s ! k)" by (auto dest: set_takeWhileD)
  with k show ?thesis by (simp add: run_def takeWhile_nth)
qed

lemma is_space_space: "is_space CHR '' ''" and is_space_NL: "is_space NL"
  by (simp_all add: is_space_def NL_def)

lemma allwhitespace_only_space:
  assumes "re_match no_flags allwhitespace_regex b \<noteq> None"
  shows "list_all is_space b"
proof -
  from assms obtain j where j: "j \<le> run no_flags (Ch CHR '' '') b 0" and eol: "at_eol no_flags b j"
    unfolding re_match_None_iff allwhitespace_regex_def seqs_def foldr.simps o_apply
      rmatch_Seq_nonempty set_rmatch_Star
    by (auto split: if_splits)
  have sp: "b ! k = CHR '' ''" if "k < j" for k
    using run_nth [of k no_flags "Ch CHR '' ''" b] that j by (simp add: no_flags_def)
  have "is_space (b ! k)" if "k < length b" for k
  proof (cases "k < j")
    case True
    then show ?thesis by (simp add: sp is_space_space)
  next
    case False
    from eol have "j = length b \<or> (Suc j = length b \<and> b ! j = NL)"
      by (auto simp: at_eol_def no_flags_def)
    with False that have "k = j \<and> b ! j = NL" by auto
    then show ?thesis by (simp add: is_space_NL)
  qed
  then show ?thesis by (simp add: list_all_length)
qed

lemma re_search_field:
  assumes "multiline f" and "\<not> dotall f"
  shows "re_search f (field_regex p) s =
     (case filter (\<lambda>i. at_bol f s i \<and> lit_at f p s i) [0..<Suc (length s)] of
        [] \<Rightarrow> None
      | i # _ \<Rightarrow> Some \<lparr>m_start = i, m_end = snd (value_span f p s i),
                       m_group1 = Some (value_span f p s i)\<rparr>)"
proof -
  have eq: "filter (\<lambda>i. rmatch f s (field_regex p) (i, None) \<noteq> []) [0..<Suc (length s)]
      = filter (\<lambda>i. at_bol f s i \<and> lit_at f p s i) [0..<Suc (length s)]"
    by (intro filter_cong refl) (simp add: field_regex_match [OF assms] del: upt_Suc)
  show ?thesis
  proof (cases "filter (\<lambda>i. at_bol f s i \<and> lit_at f p s i) [0..<Suc (length s)]")
    case Nil
    with eq show ?thesis by (simp add: re_search_def search_from_filter del: upt_Suc)
  next
    case (Cons i rest)
    then have "i \<in> set (filter (\<lambda>i. at_bol f s i \<and> lit_at f p s i) [0..<Suc (length s)])"
      by simp
    then have i: "i \<le> length s" "at_bol f s i" "lit_at f p s i" by (auto simp del: upt_Suc)
    from field_regex_first [OF assms i] obtain more where
      "rmatch f s (field_regex p) (i, None)
         = (snd (value_span f p s i), Some (value_span f p s i)) # more" by blast
    with eq Cons show ?thesis
      by (simp add: re_search_def search_from_filter mk_match_def del: upt_Suc)
  qed
qed

lemma filter_line_starts:
  assumes "multiline f"
  shows "filter P (line_starts s)
     = map (\<lambda>i. drop i s) (filter (\<lambda>i. at_bol f s i \<and> P (drop i s)) [0..<Suc (length s)])"
  unfolding line_starts_upt [OF assms] by (simp add: filter_map comp_def del: upt_Suc)

lemma list_ex_filter: "list_ex P xs \<longleftrightarrow> filter P xs \<noteq> []"
  by (auto simp: list_ex_iff filter_empty_conv)

lemma some_line_begins_iff:
  assumes "multiline f" and "\<not> ignorecase f"
  shows "some_line_begins p s \<longleftrightarrow>
     filter (\<lambda>i. at_bol f s i \<and> lit_at f p s i) [0..<Suc (length s)] \<noteq> []"
  unfolding some_line_begins_def list_ex_filter filter_line_starts [OF assms(1)]
  by (simp add: lit_at_prefix [OF assms(2)] del: upt_Suc)

lemma some_line_begins_ci_iff:
  assumes "multiline f" and "ignorecase f"
  shows "some_line_begins_ci p s \<longleftrightarrow>
     filter (\<lambda>i. at_bol f s i \<and> lit_at f p s i) [0..<Suc (length s)] \<noteq> []"
  unfolding some_line_begins_ci_def list_ex_filter filter_line_starts [OF assms(1)]
  by (simp add: lit_at_prefix_ci [OF assms(2)] del: upt_Suc)

lemma search_field_None_iff:
  "re_search MULTILINE (field_regex p) s = None \<longleftrightarrow> \<not> some_line_begins p s"
proof -
  have f: "multiline MULTILINE" "\<not> dotall MULTILINE" "\<not> ignorecase MULTILINE"
    by (simp_all add: MULTILINE_def)
  show ?thesis
    unfolding re_search_field [OF f(1,2)] some_line_begins_iff [OF f(1,3)]
    by (simp split: list.splits del: upt_Suc)
qed

lemma search_field_ci_None_iff:
  "re_search MULTILINE_IGNORECASE (field_regex p) s = None \<longleftrightarrow> \<not> some_line_begins_ci p s"
proof -
  have f: "multiline MULTILINE_IGNORECASE" "\<not> dotall MULTILINE_IGNORECASE"
    "ignorecase MULTILINE_IGNORECASE"
    by (simp_all add: MULTILINE_IGNORECASE_def)
  show ?thesis
    unfolding re_search_field [OF f(1,2)] some_line_begins_ci_iff [OF f(1,3)]
    by (simp split: list.splits del: upt_Suc)
qed

lemma search_body_None_iff:
  "re_search MULTILINE_IGNORECASE_DOTALL body_regex s = None
     \<longleftrightarrow> \<not> some_line_begins_ci ''text:'' s"
proof -
  have f: "multiline MULTILINE_IGNORECASE_DOTALL" "ignorecase MULTILINE_IGNORECASE_DOTALL"
    by (simp_all add: MULTILINE_IGNORECASE_DOTALL_def)
  have "re_search MULTILINE_IGNORECASE_DOTALL body_regex s = None \<longleftrightarrow>
      filter (\<lambda>i. at_bol MULTILINE_IGNORECASE_DOTALL s i
                 \<and> lit_at MULTILINE_IGNORECASE_DOTALL ''text:'' s i) [0..<Suc (length s)] = []"
    unfolding re_search_None_iff filter_empty_conv body_regex_no_match
    by (auto simp: less_Suc_eq_le simp del: upt_Suc lit_at.simps)
  then show ?thesis
    unfolding some_line_begins_ci_iff [OF f] by simp
qed

lemma process_items_fails:
  assumes "\<And>st. \<exists>e. process_item st b = Inl e" and "b \<in> set bs"
  shows "\<exists>e. process_items st bs = Inl e"
  using assms(2)
proof (induction bs arbitrary: st)
  case Nil
  then show ?case by simp
next
  case (Cons a bs)
  show ?case
  proof (cases "process_item st a")
    case (Inl e)
    then show ?thesis by simp
  next
    case (Inr st')
    with assms(1) [of st] have "a \<noteq> b" by auto
    with Cons.prems have "b \<in> set bs" by simp
    from Cons.IH [OF this, of st'] Inr show ?thesis by simp
  qed
qed

lemma drop_value_start:
  "drop (if j < length b \<and> b ! j = CHR '' '' then Suc j else j) b = drop_one_space (drop j b)"
proof (cases "j < length b")
  case True
  then have "drop j b = b ! j # drop (Suc j) b" by (simp add: Cons_nth_drop_Suc)
  with True show ?thesis by (simp add: drop_one_space_def)
next
  case False
  then show ?thesis by (simp add: drop_one_space_def)
qed

lemma group1_field:
  assumes "multiline f" and "\<not> dotall f" and "\<not> ignorecase f"
    and "re_search f (field_regex p) b = Some m"
  shows "group1 b m = field_value p b"
proof -
  let ?is = "filter (\<lambda>i. at_bol f b i \<and> lit_at f p b i) [0..<Suc (length b)]"
  from assms(4) obtain i rest where
    idx: "?is = i # rest" and
    m: "m = \<lparr>m_start = i, m_end = snd (value_span f p b i), m_group1 = Some (value_span f p b i)\<rparr>"
    unfolding re_search_field [OF assms(1,2)] by (auto split: list.splits simp del: upt_Suc)
  let ?j = "i + length p"
  let ?q = "if ?j < length b \<and> b ! ?j = CHR '' '' then Suc ?j else ?j"
  have span: "value_span f p b i = (?q, ?q + run f Dot b ?q)"
    using assms(3) by (simp add: value_span_def Let_def)
  have "group1 b m = take (run f Dot b ?q) (drop ?q b)"
    unfolding m span by (simp add: group1_def slice_def)
  also have "\<dots> = takeWhile (atom_ok f Dot) (drop ?q b)"
    unfolding run_def by (rule takeWhile_eq_take [symmetric])
  also have "\<dots> = takeWhile (\<lambda>c. c \<noteq> NL) (drop_one_space (drop (length p) (drop i b)))"
  proof -
    have "atom_ok f Dot = (\<lambda>c. c \<noteq> NL)" using assms(2) by (intro ext) simp
    then show ?thesis unfolding drop_value_start by (simp add: add.commute)
  qed
  also have "\<dots> = field_value p b"
  proof -
    have "filter (prefix p) (line_starts b) = map (\<lambda>i. drop i b) ?is"
      unfolding filter_line_starts [OF assms(1)]
      by (simp add: lit_at_prefix [OF assms(3)] del: upt_Suc)
    then show ?thesis unfolding idx by (simp add: field_value_def)
  qed
  finally show ?thesis .
qed

lemma field_value_no_NL: "NL \<notin> set (field_value p b)"
proof (cases "filter (prefix p) (line_starts b)")
  case Nil
  then show ?thesis by (simp add: field_value_def)
next
  case (Cons l ls)
  have "NL \<notin> set (takeWhile (\<lambda>c. c \<noteq> NL) xs)" for xs
    using set_takeWhileD [of NL "\<lambda>c. c \<noteq> NL" xs] by blast
  with Cons show ?thesis by (simp add: field_value_def)
qed

lemma just_whitespace_iff:
  assumes "NL \<notin> set v"
  shows "re_match no_flags just_whitespace_regex v = None \<longleftrightarrow> \<not> all_spaces v"
proof -
  have np: "\<not> (Suc j = length v \<and> v ! j = NL)" for j
    by (metis assms lessI nth_mem)
  have "re_match no_flags just_whitespace_regex v \<noteq> None \<longleftrightarrow>
      (\<exists>j\<le>run no_flags (Ch CHR '' '') v 0. at_eol no_flags v j)"
    unfolding re_match_None_iff just_whitespace_regex_def seqs_def foldr.simps o_apply
      rmatch_Seq_nonempty set_rmatch_Star
    by (auto simp: at_bol_def)
  also have "\<dots> \<longleftrightarrow> length v \<le> run no_flags (Ch CHR '' '') v 0"
    using np by (auto simp: at_eol_def no_flags_def)
  also have "\<dots> \<longleftrightarrow> takeWhile (\<lambda>c. c = CHR '' '') v = v"
  proof -
    have pred: "atom_ok no_flags (Ch CHR '' '') = (\<lambda>c. c = CHR '' '')"
      by (intro ext) (simp add: no_flags_def)
    have r: "run no_flags (Ch CHR '' '') v 0 = length (takeWhile (\<lambda>c. c = CHR '' '') v)"
      unfolding run_def pred by simp
    have le: "length (takeWhile (\<lambda>c. c = CHR '' '') v) \<le> length v" by (rule length_takeWhile_le)
    show ?thesis
    proof
      assume "length v \<le> run no_flags (Ch CHR '' '') v 0"
      with le r have "length (takeWhile (\<lambda>c. c = CHR '' '') v) = length v" by simp
      then show "takeWhile (\<lambda>c. c = CHR '' '') v = v"
        by (metis takeWhile_eq_take take_all order_refl)
    next
      assume "takeWhile (\<lambda>c. c = CHR '' '') v = v"
      then have "length (takeWhile (\<lambda>c. c = CHR '' '') v) = length v" by (rule arg_cong)
      then show "length v \<le> run no_flags (Ch CHR '' '') v 0" unfolding r by (rule eq_imp_le [OF sym])
    qed
  qed
  also have "\<dots> \<longleftrightarrow> all_spaces v"
    by (simp add: takeWhile_eq_all_conv all_spaces_def list_all_iff)
  finally show ?thesis by blast
qed

lemma begins_not_all_space:
  assumes "some_line_begins p b" and "p \<noteq> []" and "\<not> is_space (hd p)"
  shows "\<not> list_all is_space b"
proof -
  from assms(1) obtain l where l: "l \<in> set (line_starts b)" "prefix p l"
    by (auto simp: some_line_begins_def list_ex_iff)
  have "set (after_newlines s) \<subseteq> {l. set l \<subseteq> set s}" for s
    by (induction s) auto
  with l(1) have "set l \<subseteq> set b" by (auto simp: line_starts_def)
  moreover from l(2) assms(2) have "hd p \<in> set l" by (cases p) (auto simp: prefix_def)
  ultimately show ?thesis using assms(3) by (auto simp: list_all_iff)
qed

section \<open>The segment classifier\<close>

lemma known_found: "g \<in> set (found_segments s) \<Longrightarrow> known_segment s g"
  by (auto simp: found_segments_def known_segment_def para_segment_def url_segment_def)

lemma known_text_segment: "known_segment s (text_segment s i j)"
  by (simp add: known_segment_def text_segment_def covered_def)

lemma fill_gaps_known:
  "fill_gaps s gs cur app = (cur', app') \<Longrightarrow> list_all (known_segment s) app
   \<Longrightarrow> list_all (known_segment s) app'"
proof (induction gs arbitrary: cur app)
  case Nil
  then show ?case by simp
next
  case (Cons g gs)
  let ?app = "if cur < seg_start g then app @ [text_segment s cur (seg_start g)] else app"
  have "fill_gaps s gs (seg_end g) ?app = (cur', app')"
    using Cons.prems(1) by simp
  moreover have "list_all (known_segment s) ?app"
    using Cons.prems(2) by (simp add: known_text_segment)
  ultimately show ?case by (rule Cons.IH)
qed

lemma segments_known: "g \<in> set (segments s) \<Longrightarrow> known_segment s g"
proof -
  assume g: "g \<in> set (segments s)"
  obtain cur app where fg: "fill_gaps s (sort_key seg_start (found_segments s)) 0 [] = (cur, app)"
    by (cases "fill_gaps s (sort_key seg_start (found_segments s)) 0 []") auto
  from fill_gaps_known [OF fg] have app: "list_all (known_segment s) app" by simp
  from g fg have "g \<in> set (found_segments s) \<or> g \<in> set app \<or> g = text_segment s cur (length s)"
    by (auto simp: segments_def Let_def split: if_splits)
  with app show ?thesis
    by (auto simp: known_found known_text_segment list_all_iff)
qed

lemma emit_known: "known_segment s g \<Longrightarrow> \<exists>ns. emit job g = Inr ns"
  by (auto simp: emit_def known_segment_def)

lemma emit_all_known: "list_all (known_segment s) gs \<Longrightarrow> \<exists>ns. emit_all job gs = Inr ns"
proof (induction gs)
  case Nil
  then show ?case by simp
next
  case (Cons g gs)
  then obtain ns ms where "emit job g = Inr ns" "emit_all job gs = Inr ms"
    using emit_known [of s g job] by auto
  then show ?case by simp
qed

lemma word_not_space: "is_word c \<Longrightarrow> \<not> is_space c"
  by (auto simp: is_word_def is_alnum_def is_space_def Let_def)

lemma parbreak_never_empty: "never_empty parbreak_regex"
  by (simp add: parbreak_regex_def seqs_def)

lemma parbreak_consumes_space: "consumes_only is_space no_flags parbreak_regex"
  by (simp add: parbreak_regex_def seqs_def no_flags_def is_space_def NL_def)

lemma url_never_empty: "never_empty url_regex"
  by (simp add: url_regex_def seqs_def)

lemma url_consumes_nonspace: "consumes_only (\<lambda>c. \<not> is_space c) no_flags url_regex"
proof -
  have cls: "\<not> is_space c" if "is_word c \<or> c \<in> set url_chars" for c
    using that word_not_space [of c] by (auto simp: url_chars_def is_space_def)
  have ch: "\<not> is_space c" if "c \<in> set ''https:telnet:gopher:file:wais:ftp''" for c
    using that by (auto simp: is_space_def)
  show ?thesis
    unfolding url_regex_def seqs_def lits_def
    using cls ch by (simp add: no_flags_def)
qed

lemma spans_okD: "spans_ok n L \<Longrightarrow> g \<in> set L \<Longrightarrow> seg_start g < seg_end g \<and> seg_end g \<le> n"
  unfolding spans_ok_def by blast

lemma spans_ok_matches:
  assumes "span_chain n p ms"
    and "\<And>m. seg_start (mk m) = m_start m" and "\<And>m. seg_end (mk m) = m_end m"
  shows "spans_ok n (map mk ms)"
proof -
  have "seg_start \<circ> mk = m_start" by (auto simp: assms(2))
  with span_chain_pairwise [OF assms(1)] show ?thesis
    unfolding spans_ok_def by (auto simp: assms(2,3))
qed

lemma spans_ok_append:
  assumes "spans_ok n A" and "spans_ok n B"
    and "\<And>g h. g \<in> set A \<Longrightarrow> h \<in> set B \<Longrightarrow>
           (seg_start g < seg_start h \<longrightarrow> seg_end g \<le> seg_start h)
           \<and> (seg_start h < seg_start g \<longrightarrow> seg_end h \<le> seg_start g)
           \<and> seg_start g \<noteq> seg_start h"
  shows "spans_ok n (A @ B)"
proof -
  have 1: "\<forall>g\<in>set (A @ B). seg_start g < seg_end g \<and> seg_end g \<le> n"
    using assms(1,2) by (auto simp: spans_ok_def)
  have 2: "seg_end g \<le> seg_start h"
    if gh: "g \<in> set (A @ B)" "h \<in> set (A @ B)" and lt: "seg_start g < seg_start h" for g h
  proof -
    consider "g \<in> set A" "h \<in> set A" | "g \<in> set A" "h \<in> set B"
      | "g \<in> set B" "h \<in> set A" | "g \<in> set B" "h \<in> set B"
      using gh by auto
    then show ?thesis
    proof cases
      case 1
      with assms(1) lt show ?thesis by (simp add: spans_ok_def)
    next
      case 2
      with assms(3) [of g h] lt show ?thesis by simp
    next
      case 3
      with assms(3) [of h g] lt show ?thesis by simp
    next
      case 4
      with assms(2) lt show ?thesis by (simp add: spans_ok_def)
    qed
  qed
  have 3: "distinct (map seg_start (A @ B))"
    using assms by (auto simp: spans_ok_def)
  from 1 2 3 show ?thesis unfolding spans_ok_def by blast
qed

lemma space_nonspace_apart:
  assumes "all_chars is_space s g" and "all_chars (\<lambda>c. \<not> is_space c) s h"
    and "seg_start g < seg_end g" and "seg_start h < seg_end h"
  shows "(seg_start g < seg_start h \<longrightarrow> seg_end g \<le> seg_start h)
     \<and> (seg_start h < seg_start g \<longrightarrow> seg_end h \<le> seg_start g)
     \<and> seg_start g \<noteq> seg_start h"
proof -
  have no: "\<not> (seg_start g \<le> k \<and> k < seg_end g \<and> seg_start h \<le> k \<and> k < seg_end h)" for k
    using assms(1,2) by (auto simp: all_chars_def)
  show ?thesis
  proof (intro conjI impI)
    assume "seg_start g < seg_start h"
    with no [of "seg_start h"] assms(4) show "seg_end g \<le> seg_start h" by simp
  next
    assume "seg_start h < seg_start g"
    with no [of "seg_start g"] assms(3) show "seg_end h \<le> seg_start g" by simp
  next
    from no [of "seg_start g"] assms(3,4) show "seg_start g \<noteq> seg_start h" by auto
  qed
qed

lemma found_spans_ok: "spans_ok (length s) (found_segments s)"
proof -
  let ?P = "finditer no_flags parbreak_regex s" and ?U = "finditer no_flags url_regex s"
  have A: "spans_ok (length s) (map para_segment ?P)"
    unfolding finditer_def
    by (rule spans_ok_matches [OF finditer_chain [OF parbreak_never_empty]])
       (simp_all add: para_segment_def)
  have B: "spans_ok (length s) (map (url_segment s) ?U)"
    unfolding finditer_def
    by (rule spans_ok_matches [OF finditer_chain [OF url_never_empty]])
       (simp_all add: url_segment_def)
  have sp: "all_chars is_space s g" if "g \<in> set (map para_segment ?P)" for g
  proof -
    from that obtain m where m: "m \<in> set ?P" "g = para_segment m" by auto
    from finditer_matches [OF m(1) [unfolded finditer_def]]
    have "(m_end m, m_group1 m) \<in> set (rmatch no_flags s parbreak_regex (m_start m, None))"
      by simp
    from rmatch_chars [OF parbreak_consumes_space this] show ?thesis
      unfolding all_chars_def m(2) by (simp add: para_segment_def)
  qed
  have nsp: "all_chars (\<lambda>c. \<not> is_space c) s h" if "h \<in> set (map (url_segment s) ?U)" for h
  proof -
    from that obtain m where m: "m \<in> set ?U" "h = url_segment s m" by auto
    from finditer_matches [OF m(1) [unfolded finditer_def]]
    have "(m_end m, m_group1 m) \<in> set (rmatch no_flags s url_regex (m_start m, None))"
      by simp
    from rmatch_chars [OF url_consumes_nonspace this] show ?thesis
      unfolding all_chars_def m(2) by (simp add: url_segment_def)
  qed
  show ?thesis
    unfolding found_segments_def
  proof (rule spans_ok_append [OF A B])
    fix g h
    assume g: "g \<in> set (map para_segment ?P)" and h: "h \<in> set (map (url_segment s) ?U)"
    from spans_okD [OF A g] have "seg_start g < seg_end g" ..
    moreover from spans_okD [OF B h] have "seg_start h < seg_end h" ..
    ultimately show "(seg_start g < seg_start h \<longrightarrow> seg_end g \<le> seg_start h)
       \<and> (seg_start h < seg_start g \<longrightarrow> seg_end h \<le> seg_start g)
       \<and> seg_start g \<noteq> seg_start h"
      by (rule space_nonspace_apart [OF sp [OF g] nsp [OF h]])
  qed
qed

lemma spans_ok_sort: "spans_ok n L \<Longrightarrow> spans_ok n (sort_key seg_start L)"
  unfolding spans_ok_def by (simp add: distinct_map)

lemma sorted_spans_chain:
  "spans_ok n L \<Longrightarrow> sorted (map seg_start L) \<Longrightarrow> \<forall>g\<in>set L. p \<le> seg_start g
   \<Longrightarrow> seg_chain n p L"
proof (induction L arbitrary: p)
  case Nil
  then show ?case by simp
next
  case (Cons g gs)
  from Cons.prems(1) have g: "seg_start g < seg_end g" "seg_end g \<le> n"
    and pw: "\<forall>h\<in>set gs. seg_start g < seg_start h \<longrightarrow> seg_end g \<le> seg_start h"
    and ne: "\<forall>h\<in>set gs. seg_start g \<noteq> seg_start h"
    and rest: "spans_ok n gs"
    unfolding spans_ok_def by auto
  from Cons.prems(2) have le: "\<forall>h\<in>set gs. seg_start g \<le> seg_start h" and srt: "sorted (map seg_start gs)"
    by auto
  have "\<forall>h\<in>set gs. seg_end g \<le> seg_start h"
  proof
    fix h assume h: "h \<in> set gs"
    with le ne have "seg_start g < seg_start h" by (simp add: le_neq_implies_less)
    with pw h show "seg_end g \<le> seg_start h" by simp
  qed
  from Cons.IH [OF rest srt this] g Cons.prems(3) show ?case by simp
qed

lemma fill_gaps_mset:
  "fill_gaps s L cur app = (cur', app')
   \<Longrightarrow> mset L + mset app' + mset (final_gap s cur') = mset (tiled s cur L) + mset app"
proof (induction L arbitrary: cur app)
  case Nil
  then show ?case by simp
next
  case (Cons g gs)
  let ?app = "if cur < seg_start g then app @ [text_segment s cur (seg_start g)] else app"
  from Cons.prems have "fill_gaps s gs (seg_end g) ?app = (cur', app')" by simp
  from Cons.IH [OF this] show ?case by simp
qed

lemma tiled_contiguous:
  "seg_chain (length s) cur L \<Longrightarrow> cur \<le> length s
   \<Longrightarrow> contiguous_from cur (tiled s cur L) (length s)"
proof (induction L arbitrary: cur)
  case Nil
  then show ?case by (simp add: final_gap_def text_segment_def)
next
  case (Cons g gs)
  then have "contiguous_from (seg_end g) (tiled s (seg_end g) gs) (length s)" by simp
  with Cons.prems show ?case by (simp add: text_segment_def)
qed

lemma contiguous_lower: "contiguous_from p L n \<Longrightarrow> g \<in> set L \<Longrightarrow> p \<le> seg_start g"
proof (induction L arbitrary: p)
  case Nil
  then show ?case by simp
next
  case (Cons a L)
  show ?case
  proof (cases "g = a")
    case True
    with Cons.prems show ?thesis by simp
  next
    case False
    with Cons.prems have "g \<in> set L" "contiguous_from (seg_end a) L n" "p < seg_end a" by auto
    with Cons.IH [of "seg_end a"] show ?thesis by simp
  qed
qed

lemma contiguous_sorted:
  "contiguous_from p L n \<Longrightarrow> sorted (map seg_start L) \<and> distinct (map seg_start L)"
proof (induction L arbitrary: p)
  case Nil
  then show ?case by simp
next
  case (Cons a L)
  then have ch: "contiguous_from (seg_end a) L n" and a: "seg_start a < seg_end a" by simp_all
  have lt: "seg_start a < seg_start g" if "g \<in> set L" for g
    using contiguous_lower [OF ch that] a by simp
  then have "\<forall>g\<in>set L. seg_start a \<le> seg_start g" by (simp add: less_imp_le)
  moreover have "seg_start a \<notin> seg_start ` set L" using lt by force
  ultimately show ?case using Cons.IH [OF ch] by simp
qed

lemma sort_key_unique:
  assumes "mset xs = mset ys" and "sorted (map f ys)" and "distinct (map f ys)"
  shows "sort_key f xs = ys"
proof -
  have set_eq: "set xs = set ys" using assms(1) by (rule mset_eq_setD)
  have "mset (map f xs) = mset (map f ys)" using assms(1) by simp
  then have "distinct (map f xs) \<longleftrightarrow> distinct (map f ys)" by (rule mset_eq_imp_distinct_iff)
  with assms(3) have "distinct (map f xs)" by blast
  then have d: "distinct (map f (sort_key f xs))" by (simp add: distinct_map)
  have "map f (sort_key f xs) = map f ys"
    by (rule sorted_distinct_set_unique [OF sorted_sort_key d assms(2,3)])
       (simp add: set_eq)
  moreover have "inj_on f (set (sort_key f xs) \<union> set ys)"
    using assms(3) by (simp add: set_eq distinct_map)
  ultimately show ?thesis by (rule map_inj_on)
qed

lemma contiguous_le: "contiguous_from p L n \<Longrightarrow> p \<le> n"
proof (induction L arbitrary: p)
  case Nil
  then show ?case by simp
next
  case (Cons g gs)
  then have "contiguous_from (seg_end g) gs n" "p < seg_end g" by simp_all
  with Cons.IH [of "seg_end g"] show ?case by simp
qed

lemma slice_append: "i \<le> j \<Longrightarrow> j \<le> k \<Longrightarrow> slice s i j @ slice s j k = slice s i k"
proof -
  assume "i \<le> j" "j \<le> k"
  then have "k - i = (j - i) + (k - j)" "drop (j - i) (drop i s) = drop j s" by simp_all
  then show ?thesis unfolding slice_def by (simp add: take_add)
qed

lemma contiguous_concat:
  "contiguous_from p L n \<Longrightarrow> concat (map (covered s) L) = slice s p n"
proof (induction L arbitrary: p)
  case Nil
  then show ?case by (simp add: slice_def)
next
  case (Cons g gs)
  then have ch: "contiguous_from (seg_end g) gs n" and g: "seg_start g = p" "p < seg_end g"
    by simp_all
  from contiguous_le [OF ch] g slice_append [of p "seg_end g" n s]
  have "slice s p (seg_end g) @ slice s (seg_end g) n = slice s p n" by simp
  with Cons.IH [OF ch] g show ?case by (simp add: covered_def)
qed

lemma segments_tiled:
  assumes "found_segments s \<noteq> []"
  shows "segments s = tiled s 0 (sort_key seg_start (found_segments s))"
    and "contiguous_from 0 (segments s) (length s)"
proof -
  let ?sorted = "sort_key seg_start (found_segments s)"
  obtain cur app where fg: "fill_gaps s ?sorted 0 [] = (cur, app)"
    by (cases "fill_gaps s ?sorted 0 []") auto
  have seg: "segments s = sort_key seg_start (?sorted @ app @ final_gap s cur)"
    using assms fg by (simp add: segments_def Let_def final_gap_def)
  have "spans_ok (length s) ?sorted" by (rule spans_ok_sort [OF found_spans_ok])
  then have "seg_chain (length s) 0 ?sorted"
    by (rule sorted_spans_chain) simp_all
  then have cont: "contiguous_from 0 (tiled s 0 ?sorted) (length s)"
    by (rule tiled_contiguous) simp
  from fill_gaps_mset [OF fg]
  have "mset (?sorted @ app @ final_gap s cur) = mset (tiled s 0 ?sorted)"
    by (simp add: add.assoc)
  with contiguous_sorted [OF cont]
  have "sort_key seg_start (?sorted @ app @ final_gap s cur) = tiled s 0 ?sorted"
    by (intro sort_key_unique) simp_all
  with seg show "segments s = tiled s 0 ?sorted" by simp
  with cont show "contiguous_from 0 (segments s) (length s)" by simp
qed















text \<open>
  The resolved list tiles the text exactly when a span was found or the text is empty:
  two spans never overlap (a paragraph break is whitespace, a URL has none), so apart
  from the early return the classifier does tile its input.
\<close>

lemma segments_tile_iff:
  "exactly_tiles (segments s) s \<longleftrightarrow> (found_segments s \<noteq> [] \<or> s = [])"
proof (cases "found_segments s = []")
  case True
  then have "segments s = []" by (simp add: segments_def)
  with True show ?thesis by (auto simp: exactly_tiles_def)
next
  case False
  from segments_tiled(2) [OF False] contiguous_concat [of 0 "segments s" "length s" s]
  have "exactly_tiles (segments s) s" by (simp add: exactly_tiles_def slice_def)
  with False show ?thesis by simp
qed

text \<open>
  C1. The claim: for every body string, the resolved segment list tiles the string and
  the source substrings of its segments, in order, give the string back. The constructor
  returns early when it finds neither a paragraph break nor a URL (its comment there
  reads "No text"), so for the body \<open>abc\<close> the resolved list is empty and tiles
  nothing.
\<close>

theorem segments_abc_not_tiled:
  "found_segments (classified ''abc'' False) = []
   \<and> segments (classified ''abc'' False) = []
   \<and> exactly_tiles (segments (classified ''abc'' False)) (classified ''abc'' False) = False"
  by code_simp

text \<open>
  C2. The claim: a body with no URL and no blank line gives one plain-text segment that
  spans the body, and a renderer with one plain-text node holding the body. For the body
  \<open>Hello world\<close> both scans find nothing, the constructor returns early, and the
  renderer has no node at all: the text of the item is lost.
\<close>

theorem plain_body_gives_no_node:
  "finditer no_flags url_regex ''Hello world'' = []
   \<and> finditer no_flags parbreak_regex ''Hello world'' = []
   \<and> segments (classified ''Hello world'' False) = []
   \<and> parsedstr ''Hello world'' False = Inr []
   \<and> mixed_print_text [] = []"
  by code_simp

text \<open>
  C9. For every string and either value of the job flag, every segment of the resolved
  list has the type \<open>p\<close>, \<open>u\<close> or \<open>t\<close>, and the constructor returns normally: the
  branch that raises "Segment type unknown." is never taken (nor is a segment without
  the value it needs ever read).
\<close>

theorem segment_kinds_known:
  "list_all (\<lambda>g. seg_type g = ''p'' \<or> seg_type g = ''u'' \<or> seg_type g = ''t'')
     (segments (classified s job))
   \<and> (\<exists>ns. parsedstr s job = Inr ns)
   \<and> parsedstr s job \<noteq> Inl (ValueError ''Segment type unknown.'')"
proof -
  have k: "list_all (known_segment (classified s job)) (segments (classified s job))"
    by (simp add: list_all_iff segments_known)
  then have 1: "list_all (\<lambda>g. seg_type g = ''p'' \<or> seg_type g = ''u'' \<or> seg_type g = ''t'')
     (segments (classified s job))"
    by (auto simp: list_all_iff known_segment_def)
  from emit_all_known [OF k] obtain ns where "parsedstr s job = Inr ns"
    by (auto simp: parsedstr_def)
  with 1 show ?thesis by simp
qed





section \<open>The item parser and the main program\<close>

text \<open>
  C3. The claim: an input file name with the extension \<open>.txt\<close>, such as
  \<open>draft.txt\<close>, makes the program print a warning and exit with a non-zero status
  before it writes. The guard uses \<open>re.match\<close>, which looks at the start of the name
  only, so it fires for the name \<open>.txt\<close> alone; for \<open>draft.txt\<close> the run goes on and
  writes its text output to \<open>draft.txt\<close>, the input file.
\<close>

theorem draft_txt_is_overwritten:
  "re_match no_flags dot_txt_regex ''draft.txt'' = None
   \<and> out_txt_fname ''draft.txt'' = ''draft.txt''
   \<and> main env ''aasw.py'' [''draft.txt'']
        [''draft.txt'' \<mapsto> ''title: a\<newline>text: b'', final_text_filename \<mapsto> []]
      = Wrote ''draft.html'' ''draft.txt''"
  by code_simp

text \<open>
  C5. The claim: a block of whitespace only (spaces, tabs, newlines) is skipped without
  an item and without an error. The test for a blank block is the pattern
  \<^verbatim>\<open> *$\<close>, which accepts spaces followed by at most one final newline; the block of
  two newlines is not skipped and raises the missing-title error.
\<close>

theorem two_newlines_block_raises:
  "list_all is_space [NL, NL]
   \<and> re_match no_flags allwhitespace_regex [NL, NL] = None
   \<and> process_item empty_aasw [NL, NL] = Inl (title_error [NL, NL])"
  by code_simp

text \<open>
  C7. The block \<open>title: Test\<close>, newline, \<open>text: Visit http://example.com today.\<close>
  is parsed to exactly one item; the HTML rendering of its text contains the anchor
  \<^verbatim>\<open><a href="http://example.com">http://example.com</a>\<close> and its plain-text
  rendering contains \<open>http://example.com\<close>.
\<close>

theorem scenario_link_item:
  "process_filetext empty_aasw ''title: Test\<newline>text: Visit http://example.com today.''
     = Inr \<lparr>items = [\<lparr>item_title = ''Test'', item_from = None,
                        item_text = [texthtmlstr ''Visit '', urlstr ''http://example.com'',
                                     texthtmlstr '' today.'']\<rparr>],
             image = image empty_aasw\<rparr>
   \<and> mixed_print_html [texthtmlstr ''Visit '', urlstr ''http://example.com'', texthtmlstr '' today.'']
       = ''<p>Visit <a href='' @ [CHR 0x22] @ ''http://example.com'' @ [CHR 0x22]
         @ ''>http://example.com</a> today.</p>''
   \<and> sublist (''<a href='' @ [CHR 0x22] @ ''http://example.com'' @ [CHR 0x22] @ ''>http://example.com</a>'')
       (mixed_print_html [texthtmlstr ''Visit '', urlstr ''http://example.com'', texthtmlstr '' today.''])
   \<and> mixed_print_text [texthtmlstr ''Visit '', urlstr ''http://example.com'', texthtmlstr '' today.'']
       = ''Visit http://example.com today.''
   \<and> sublist ''http://example.com''
       (mixed_print_text [texthtmlstr ''Visit '', urlstr ''http://example.com'', texthtmlstr '' today.''])"
  by code_simp



text \<open>
  C4. A block that is not whitespace only and has no line beginning with \<open>img-url:\<close>
  raises the missing-field error when no line of it begins with \<open>title:\<close> (in any
  case), and when one does but no line begins with \<open>text:\<close>; the message contains
  the block. The exception ends the run: whichever file the block is in, the parse fails
  and the main program writes no file.
\<close>

theorem missing_field_raises:
  assumes "\<not> list_all is_space b"
    and "\<not> some_line_begins ''img-url:'' b"
    and "\<not> some_line_begins_ci ''title:'' b \<or> \<not> some_line_begins_ci ''text:'' b"
  shows "process_item st b
       = Inl (if some_line_begins_ci ''title:'' b then body_error b else title_error b)
     \<and> sublist b (message (title_error b)) \<and> sublist b (message (body_error b))
     \<and> (b \<in> set (re_split no_flags delimiter_regex fulltext)
          \<or> b \<in> set (re_split no_flags delimiter_regex finaltext)
        \<longrightarrow> (\<exists>e. parse_texts fulltext finaltext = Inl e)
            \<and> (\<forall>env fs prog input.
                 fs input = Some fulltext \<and> fs final_text_filename = Some finaltext
                 \<longrightarrow> (\<forall>h t. main env prog [input] fs \<noteq> Wrote h t)))"
proof -
  have ws: "re_match no_flags allwhitespace_regex b = None"
    using assms(1) allwhitespace_only_space [of b] by blast
  have img: "re_search MULTILINE imgurl_regex b = None"
    using assms(2) by (simp add: imgurl_regex_def search_field_None_iff)
  have item: "process_item st' b
       = Inl (if some_line_begins_ci ''title:'' b then body_error b else title_error b)" for st'
  proof (cases "some_line_begins_ci ''title:'' b")
    case True
    then obtain mtitle where "re_search MULTILINE_IGNORECASE title_regex b = Some mtitle"
      using search_field_ci_None_iff [of "''title:''" b] by (auto simp: title_regex_def)
    moreover from True assms(3)
    have "re_search MULTILINE_IGNORECASE_DOTALL body_regex b = None"
      by (simp add: search_body_None_iff)
    ultimately show ?thesis using True ws img by (simp add: process_item_def)
  next
    case False
    then have "re_search MULTILINE_IGNORECASE title_regex b = None"
      by (simp add: title_regex_def search_field_ci_None_iff)
    with False ws img show ?thesis by (simp add: process_item_def)
  qed
  have incl: "sublist b (message (title_error b)) \<and> sublist b (message (body_error b))"
    unfolding title_error_def body_error_def message.simps
    by (metis append.assoc sublist_appendI)
  have fails: "\<exists>e. process_item st' b = Inl e" for st'
    using item [of st'] by simp
  have run: "(\<exists>e. parse_texts fulltext finaltext = Inl e)
      \<and> (\<forall>env fs prog input.
           fs input = Some fulltext \<and> fs final_text_filename = Some finaltext
           \<longrightarrow> (\<forall>h t. main env prog [input] fs \<noteq> Wrote h t))"
    if mem: "b \<in> set (re_split no_flags delimiter_regex fulltext)
          \<or> b \<in> set (re_split no_flags delimiter_regex finaltext)"
  proof -
    have p: "\<exists>e. parse_texts fulltext finaltext = Inl e"
    proof (cases "process_filetext empty_aasw fulltext")
      case (Inl e)
      then show ?thesis by (simp add: parse_texts_def)
    next
      case (Inr st1)
      with process_items_fails [OF fails, of "re_split no_flags delimiter_regex fulltext" empty_aasw]
      have "b \<notin> set (re_split no_flags delimiter_regex fulltext)"
        by (auto simp: process_filetext_def)
      with mem have "b \<in> set (re_split no_flags delimiter_regex finaltext)" by simp
      from process_items_fails [OF fails this, of st1] Inr show ?thesis
        by (simp add: parse_texts_def process_filetext_def)
    qed
    then show ?thesis
      by (auto simp: main_def aaswitems_def Let_def)
  qed
  from item [of st] incl run show ?thesis by blast
qed

theorem missing_field_raises_witness:
  "\<not> list_all is_space ''text: a body without a title''
   \<and> \<not> some_line_begins ''img-url:'' ''text: a body without a title''
   \<and> \<not> some_line_begins_ci ''title:'' ''text: a body without a title''
   \<and> process_item empty_aasw ''text: a body without a title''
       = Inl (title_error ''text: a body without a title'')
   \<and> (\<exists>e. parse_texts ''text: a body without a title'' [] = Inl e)"
proof -
  have h1: "\<not> list_all is_space ''text: a body without a title''" by code_simp
  have h2: "\<not> some_line_begins ''img-url:'' ''text: a body without a title''" by code_simp
  have h3: "\<not> some_line_begins_ci ''title:'' ''text: a body without a title''" by code_simp
  have h4: "''text: a body without a title''
      \<in> set (re_split no_flags delimiter_regex ''text: a body without a title'')" by code_simp
  from h3 have h3': "\<not> some_line_begins_ci ''title:'' ''text: a body without a title''
      \<or> \<not> some_line_begins_ci ''text:'' ''text: a body without a title''" by simp
  from missing_field_raises [OF h1 h2 h3', of empty_aasw "''text: a body without a title''" "[]"]
    h1 h2 h3 h4
  show ?thesis by simp
qed

text \<open>
  The image header in general: a block with a line beginning \<open>img-url:\<close> raises
  nothing and adds no item, whatever else it holds (a \<open>title:\<close> or \<open>text:\<close> line
  included). When the value of the field is empty or spaces only, the state is left as
  it was; any other value is stored as the URL and, if a line begins \<open>img-caption:\<close>,
  the value of that line as the caption.
\<close>

lemma image_header_consumed:
  assumes "some_line_begins ''img-url:'' b"
  shows "process_item st b =
     Inr (if all_spaces (field_value ''img-url:'' b) then st
          else st\<lparr>image :=
                 \<lparr>url = field_value ''img-url:'' b,
                  caption = (if some_line_begins ''img-caption:'' b
                             then CaptionNode (texthtmlstr (field_value ''img-caption:'' b))
                             else caption (image st))\<rparr>\<rparr>)"
proof -
  have f: "multiline MULTILINE" "\<not> dotall MULTILINE" "\<not> ignorecase MULTILINE"
    by (simp_all add: MULTILINE_def)
  have "\<not> list_all is_space b"
  proof (rule begins_not_all_space [OF assms])
    show "''img-url:'' \<noteq> []" by simp
    show "\<not> is_space (hd ''img-url:'')" by (simp add: is_space_def)
  qed
  then have ws: "re_match no_flags allwhitespace_regex b = None"
    using allwhitespace_only_space [of b] by blast
  from assms obtain m where m: "re_search MULTILINE imgurl_regex b = Some m"
    using search_field_None_iff [of "''img-url:''" b] by (auto simp: imgurl_regex_def)
  then have g: "group1 b m = field_value ''img-url:'' b"
    unfolding imgurl_regex_def by (rule group1_field [OF f])
  have blank: "re_match no_flags just_whitespace_regex (field_value ''img-url:'' b) = None
      \<longleftrightarrow> \<not> all_spaces (field_value ''img-url:'' b)"
    by (rule just_whitespace_iff [OF field_value_no_NL])
  have cap: "(case re_search MULTILINE imgcaption_regex b of
                Some mc \<Rightarrow> CaptionNode (texthtmlstr (group1 b mc))
              | None \<Rightarrow> caption (image st))
      = (if some_line_begins ''img-caption:'' b
         then CaptionNode (texthtmlstr (field_value ''img-caption:'' b))
         else caption (image st))"
  proof (cases "re_search MULTILINE imgcaption_regex b")
    case None
    then show ?thesis
      using search_field_None_iff [of "''img-caption:''" b] by (simp add: imgcaption_regex_def)
  next
    case (Some mc)
    then have "group1 b mc = field_value ''img-caption:'' b"
      unfolding imgcaption_regex_def by (rule group1_field [OF f])
    with Some show ?thesis
      using search_field_None_iff [of "''img-caption:''" b] by (simp add: imgcaption_regex_def)
  qed
  show ?thesis
    unfolding process_item_def using ws m g blank cap by simp
qed

lemma image_header_consumed_example:
  "some_line_begins ''img-url:'' ''img-url:  \<newline>title: A title\<newline>text: A body''
   \<and> all_spaces (field_value ''img-url:'' ''img-url:  \<newline>title: A title\<newline>text: A body'')
   \<and> process_item empty_aasw ''img-url:  \<newline>title: A title\<newline>text: A body'' = Inr empty_aasw
   \<and> some_line_begins ''img-url:'' ''\<newline>img-url: http://x/y.png\<newline>''
   \<and> process_item empty_aasw ''\<newline>img-url: http://x/y.png\<newline>''
       = Inr (empty_aasw\<lparr>image := \<lparr>url = ''http://x/y.png'', caption = CaptionStr []\<rparr>\<rparr>)"
proof -
  have h1: "some_line_begins ''img-url:'' ''img-url:  \<newline>title: A title\<newline>text: A body''"
    by code_simp
  have v1: "all_spaces (field_value ''img-url:'' ''img-url:  \<newline>title: A title\<newline>text: A body'')"
    by code_simp
  have h2: "some_line_begins ''img-url:'' ''\<newline>img-url: http://x/y.png\<newline>''"
    by code_simp
  have v2: "field_value ''img-url:'' ''\<newline>img-url: http://x/y.png\<newline>'' = ''http://x/y.png''"
    by code_simp
  have n2: "\<not> all_spaces ''http://x/y.png''"
    by code_simp
  have c2: "\<not> some_line_begins ''img-caption:'' ''\<newline>img-url: http://x/y.png\<newline>''"
    by code_simp
  have e: "caption (image empty_aasw) = CaptionStr []"
    by (simp add: empty_aasw_def)
  from image_header_consumed [OF h1, of empty_aasw] image_header_consumed [OF h2, of empty_aasw]
    h1 v1 h2 v2 n2 c2 e
  show ?thesis by simp
qed

text \<open>
  C10. The claim: a block with a line beginning \<open>img-url:\<close> is consumed as the image
  header, never becomes an item and never raises, also when the value behind
  \<open>img-url:\<close> is blank, in which case no image URL is stored. The block is consumed in
  every case (the lemma above), but the test for a blank value is the pattern
  \<^verbatim>\<open>^ *$\<close>, which accepts spaces only, although its result is named
  \<open>mimgurl_is_just_whitespace\<close> and the comment reads "not just blank": a value that
  is one tab is whitespace and is stored as the image URL.
\<close>

theorem tab_value_is_stored:
  "list_all is_space [CHR 0x09]
   \<and> field_value ''img-url:'' (''img-url: '' @ [CHR 0x09]) = [CHR 0x09]
   \<and> re_match no_flags just_whitespace_regex [CHR 0x09] = None
   \<and> process_item empty_aasw (''img-url: '' @ [CHR 0x09])
       = Inr (empty_aasw\<lparr>image := \<lparr>url = [CHR 0x09], caption = CaptionStr []\<rparr>\<rparr>)"
  by code_simp

end
